theory Spec2Isabelle
  imports Main "HOL-Library.Multiset" "HOL-Library.AList"
begin

section \<open>Numbers and strings as the TypeScript code prints them\<close>

text \<open>
  The version of a format and of a snippet is a TypeScript \<open>number\<close>. The code only
  compares versions with \<open>===\<close> and prints them inside template literals; the model
  takes the integers among them (\<open>int\<close>), printed in plain decimal as
  \<open>Number.prototype.toString\<close> prints an integer below \<open>10^21\<close>. Fractions and
  \<open>NaN\<close> are outside the model. Strings are \<open>string\<close>, compared as a whole.
\<close>

definition digit_char :: "nat \<Rightarrow> char" where
  "digit_char d = ''0123456789'' ! (d mod 10)"

fun digits :: "nat \<Rightarrow> string" where
  "digits n = (if n < 10 then [digit_char n] else digits (n div 10) @ [digit_char (n mod 10)])"

declare digits.simps [simp del]

definition number_toString :: "int \<Rightarrow> string" where
  "number_toString i = (if i < 0 then CHR ''-'' # digits (nat (- i)) else digits (nat i))"

definition boolean_toString :: "bool \<Rightarrow> string" where
  "boolean_toString b = (if b then ''true'' else ''false'')"

text \<open>
  Keeping the first element of every key, in order: the wording of the specification for
  both collapsing passes (formats without a mode, snippets of one variant). The code's
  loops over a set or a map of seen keys are compared with it below.
\<close>

function first_occurrences :: "('a \<Rightarrow> 'k) \<Rightarrow> 'a list \<Rightarrow> 'a list" where
  "first_occurrences k [] = []"
| "first_occurrences k (x # xs) = x # first_occurrences k (filter (\<lambda>y. k y \<noteq> k x) xs)"
  by pat_completeness auto
termination
  by (relation "measure (\<lambda>(k, xs). length xs)") (auto simp: less_Suc_eq_le)

text \<open>The loop shape shared by the code's two passes: skip an element whose key was seen.\<close>

fun keep_new :: "('a \<Rightarrow> 'k) \<Rightarrow> 'k set \<Rightarrow> 'a list \<Rightarrow> 'a list" where
  "keep_new k seen [] = []"
| "keep_new k seen (x # xs) =
     (if k x \<in> seen then keep_new k seen xs else x # keep_new k (insert (k x) seen) xs)"

section \<open>Format (models/format.ts)\<close>

text \<open>
  \<open>mode\<close> is \<open>string | null\<close>: \<open>None\<close> is \<open>null\<close>. The constructor computes
  \<open>_stringValue\<close> from the three fields and freezes the object, so the string is a
  function of the fields: \<open>toString\<close> below (\<open>valueOf\<close> returns the same string).
  \<open>equals\<close> compares the two strings; \<open>other instanceof Format\<close> holds for every
  value of the type.
\<close>

record Format =
  framework :: string
  version :: int
  mode :: "string option"

definition toString :: "Format \<Rightarrow> string" where
  "toString this =
     (case mode this of
        None \<Rightarrow> framework this @ ''-v'' @ number_toString (version this)
      | Some m \<Rightarrow> framework this @ ''-v'' @ number_toString (version this) @ ''-'' @ m)"

definition equals :: "Format \<Rightarrow> Format \<Rightarrow> bool" where
  "equals this other = (toString this = toString other)"

text \<open>The part of the string after the version, named for the proofs.\<close>

definition mode_suffix :: "string option \<Rightarrow> string" where
  "mode_suffix m = (case m of None \<Rightarrow> [] | Some s \<Rightarrow> CHR ''-'' # s)"

section \<open>Configuration (config.ts)\<close>

text \<open>
  The fields of \<open>DownloaderConfig\<close> the modelled functions read: \<open>urls.login\<close>,
  \<open>retries.maxRetries\<close> and the three lists of \<open>download\<close>. \<open>createConfig\<close> is the
  only configuration the program builds.
\<close>

record DownloaderConfig =
  urls_login :: string
  maxRetries :: int
  frameworks :: "string list"
  versions :: "int list"
  modes :: "string list"

definition createConfig :: DownloaderConfig where
  "createConfig =
     \<lparr>urls_login = ''https://tailwindcss.com/plus/login'',
      maxRetries = 3,
      frameworks = [''react'', ''vue'', ''html''],
      versions = [3, 4],
      modes = [''system'', ''light'', ''dark'']\<rparr>"

section \<open>ReflectingArray (models/reflecting-array.ts)\<close>

text \<open>
  The object holds its items and a direction, \<open>1\<close> or \<open>-1\<close>. One traversal by
  \<open>for ... of\<close> runs the generator to its end: it yields the items forwards or
  backwards and then flips the direction. No loop of the program leaves a traversal
  early, so a traversal is the list of yielded values with the flipped object.
\<close>

record 'a ReflectingArray =
  items :: "'a list"
  direction :: int

definition new_ReflectingArray :: "'a list \<Rightarrow> 'a ReflectingArray" where
  "new_ReflectingArray xs = \<lparr>items = xs, direction = 1\<rparr>"

text \<open>\<open>yield_down xs i\<close>: the values yielded by the backward loop from index \<open>i - 1\<close> down to 0.\<close>

fun yield_down :: "'a list \<Rightarrow> nat \<Rightarrow> 'a list" where
  "yield_down xs 0 = []"
| "yield_down xs (Suc i) = xs ! i # yield_down xs i"

definition iterate :: "'a ReflectingArray \<Rightarrow> 'a list \<times> 'a ReflectingArray" where
  "iterate this =
     (if direction this = 1 then items this else yield_down (items this) (length (items this)),
      this\<lparr>direction := (if direction this = 1 then - 1 else 1)\<rparr>)"

section \<open>generateFormats (downloader/format-manager.ts)\<close>

text \<open>
  The three nested loops, innermost first; each threads the reflecting arrays it
  traverses and the list \<open>formats\<close> it pushes to. The start mode is
  \<open>startM ?? config.download.modes[0]!\<close>: with a null start mode and an empty list of
  modes the read gives \<open>undefined\<close>, which is no value of the mode field
  (\<open>string | null\<close>) and contradicts the non-null assertion; the model returns
  \<open>None\<close> there.
\<close>

fun push_modes :: "string \<Rightarrow> int \<Rightarrow> string list \<Rightarrow> Format list \<Rightarrow> Format list" where
  "push_modes fw v [] formats = formats"
| "push_modes fw v (m # ms) formats =
     push_modes fw v ms (formats @ [\<lparr>framework = fw, version = v, mode = Some m\<rparr>])"

fun for_versions ::
  "string \<Rightarrow> int list \<Rightarrow> string ReflectingArray \<times> Format list \<Rightarrow> string ReflectingArray \<times> Format list"
where
  "for_versions fw [] st = st"
| "for_versions fw (v # vs) (modesR, formats) =
     (let (ms, modesR') = iterate modesR
      in for_versions fw vs (modesR', push_modes fw v ms formats))"

fun for_frameworks ::
  "string list \<Rightarrow> int ReflectingArray \<times> string ReflectingArray \<times> Format list
     \<Rightarrow> int ReflectingArray \<times> string ReflectingArray \<times> Format list"
where
  "for_frameworks [] st = st"
| "for_frameworks (fw # fws) (versionsR, modesR, formats) =
     (let (vs, versionsR') = iterate versionsR;
          (modesR', formats') = for_versions fw vs (modesR, formats)
      in for_frameworks fws (versionsR', modesR', formats'))"

definition generateFormats :: "Format \<Rightarrow> DownloaderConfig \<Rightarrow> Format list option" where
  "generateFormats startFormat config =
     (let startFw = framework startFormat;
          startV = version startFormat;
          startM = mode startFormat
      in case (case startM of
                 Some m \<Rightarrow> Some m
               | None \<Rightarrow> (case modes config of [] \<Rightarrow> None | m # rest \<Rightarrow> Some m)) of
           None \<Rightarrow> None
         | Some firstMode \<Rightarrow>
             let frameworksR =
                   new_ReflectingArray (startFw # filter (\<lambda>f. f \<noteq> startFw) (frameworks config));
                 versionsR =
                   new_ReflectingArray (startV # filter (\<lambda>v. v \<noteq> startV) (versions config));
                 modesR =
                   new_ReflectingArray (firstMode # filter (\<lambda>m. Some m \<noteq> startM) (modes config));
                 (fws, frameworksR') = iterate frameworksR
             in Some (snd (snd (for_frameworks fws (versionsR, modesR, [])))))"

section \<open>Formats of a page without mode inputs (worker/unauthenticated.ts)\<close>

text \<open>
  \<open>formatsToUse\<close> of \<open>extractUnauthenticatedPageData\<close>: when the component section has
  no mode inputs, the filter keeps a format only if its key
  \<open>`${f.framework}-${f.version}`\<close> is not yet in the set \<open>seen\<close>.
\<close>

definition pair_key :: "Format \<Rightarrow> string" where
  "pair_key f = framework f @ ''-'' @ number_toString (version f)"

fun filter_seen :: "string set \<Rightarrow> Format list \<Rightarrow> Format list" where
  "filter_seen seen [] = []"
| "filter_seen seen (f # fs) =
     (let key = pair_key f
      in if key \<in> seen then filter_seen seen fs else f # filter_seen (insert key seen) fs)"

definition formatsToUse :: "bool \<Rightarrow> Format list \<Rightarrow> Format list" where
  "formatsToUse hasModeInputs formats =
     (if \<not> hasModeInputs then filter_seen {} formats else formats)"

text \<open>
  The start format of an unauthenticated run (\<open>_runDownload\<close> in downloader.ts):
  \<open>new Format({ framework: 'html', version: 3, mode: 'light' })\<close>.
\<close>

definition unauthenticated_start :: Format where
  "unauthenticated_start = \<lparr>framework = ''html'', version = 3, mode = Some ''light''\<rparr>"

section \<open>Closed forms of the format loops, for the proofs\<close>

text \<open>
  \<open>dirlist d xs\<close> is what one traversal yields in direction \<open>d\<close>, and \<open>flip d\<close> the
  direction after it. \<open>vblock\<close> and \<open>fblock\<close> are the formats pushed by the loop over
  the versions and by the loop over the frameworks, as functions of the directions at
  their start; \<open>for_versions_eq\<close> and \<open>for_frameworks_eq\<close> below show that the
  state-passing loops compute them.
\<close>

definition dirlist :: "int \<Rightarrow> 'a list \<Rightarrow> 'a list" where
  "dirlist d xs = (if d = 1 then xs else rev xs)"

definition flip :: "int \<Rightarrow> int" where
  "flip d = (if d = 1 then - 1 else 1)"

definition mk :: "string \<Rightarrow> int \<Rightarrow> string \<Rightarrow> Format" where
  "mk fw v m = \<lparr>framework = fw, version = v, mode = Some m\<rparr>"

fun vblock :: "string \<Rightarrow> int list \<Rightarrow> int \<Rightarrow> string list \<Rightarrow> Format list" where
  "vblock fw [] d M = []"
| "vblock fw (v # vs) d M = map (mk fw v) (dirlist d M) @ vblock fw vs (flip d) M"

fun fblock :: "string list \<Rightarrow> int \<Rightarrow> int list \<Rightarrow> int \<Rightarrow> string list \<Rightarrow> Format list" where
  "fblock [] dv V dm M = []"
| "fblock (fw # fws) dv V dm M =
     vblock fw (dirlist dv V) dm M @ fblock fws (flip dv) V ((flip ^^ length V) dm) M"

text \<open>
  Gray-code adjacency within one framework: in every pair of neighbours with the same
  framework, exactly one of version and mode differs.
\<close>

definition one_differs :: "Format \<Rightarrow> Format \<Rightarrow> bool" where
  "one_differs a b = ((version a \<noteq> version b) \<noteq> (mode a \<noteq> mode b))"

fun gray :: "Format list \<Rightarrow> bool" where
  "gray (a # b # rest) = ((framework a = framework b \<longrightarrow> one_differs a b) \<and> gray (b # rest))"
| "gray rest = True"

text \<open>The start lists of the three reflecting arrays, and the full product of three lists.\<close>

definition start_first :: "'a \<Rightarrow> 'a list \<Rightarrow> 'a list" where
  "start_first s xs = s # filter (\<lambda>x. x \<noteq> s) xs"

definition product3 :: "string list \<Rightarrow> int list \<Rightarrow> string list \<Rightarrow> Format set" where
  "product3 F V M = {mk f v m | f v m. f \<in> set F \<and> v \<in> set V \<and> m \<in> set M}"

section \<open>Component data (types.ts)\<close>

text \<open>
  A \<open>Snippet\<close> with the fields of the interface (\<open>version\<close> and \<open>mode\<close> carry a
  prefix here, the names being taken by \<open>Format\<close>). \<open>ComponentData\<close> is a nest of
  objects whose innermost values are \<open>ComponentEntry\<close> objects: a node is an entry,
  an object with a \<open>snippets\<close> array (where \<open>Array.isArray(obj['snippets'])\<close> holds),
  or a container, an object whose values are nodes. An object is the list of its keys
  with their values, in the order \<open>Object.entries\<close> lists them; \<open>wf_keys\<close> says
  that no key occurs twice in an object. Reading an own key is \<open>map_of\<close> (a
  property read, which also looks at the prototype, is \<open>get\<close> below), and the
  assignment \<open>target[key] = value\<close> is \<open>AList.update\<close>, which replaces the value of
  a present key in place and appends an absent one.
\<close>

record Snippet =
  code :: string
  name :: string
  language :: string
  snippet_version :: int
  snippet_mode :: "string option"
  supportsDarkMode :: bool
  preview :: string

datatype node = Entry string "Snippet list" | Container "(string \<times> node) list"



text \<open>The snippet list of the entry at a path of keys, if there is an entry.\<close>

fun snippets_at :: "string list \<Rightarrow> (string \<times> node) list \<Rightarrow> Snippet list option" where
  "snippets_at [] obj = None"
| "snippets_at (key # path) obj =
     (case map_of obj key of
        None \<Rightarrow> None
      | Some (Entry nm snippets) \<Rightarrow> (if path = [] then Some snippets else None)
      | Some (Container sub) \<Rightarrow> snippets_at path sub)"

text \<open>
  What a modelled call gives instead of a normal return. \<open>TypeError\<close>,
  \<open>DownloaderError\<close> and \<open>Rethrown\<close> are the errors the code raises. The other
  two are no errors of the code but ends of the model, where the code goes on with
  objects that the model does not describe: \<open>NotComponentData\<close>, when it writes
  keys into an entry object, and \<open>PrototypeWritten\<close>, when it writes into
  \<open>Object.prototype\<close>, of which the trees keep no record (the store model further
  down has \<open>Object.prototype\<close> among its objects and follows the code there).
\<close>

datatype exn =
    TypeError
  | NotComponentData
  | PrototypeWritten
  | DownloaderError string
  | Rethrown string

section \<open>Reading a property\<close>

text \<open>
  \<open>target[key]\<close> reads the own property of that name or, when the object has none,
  the property of its prototype. The model takes objects whose prototype is
  \<open>Object.prototype\<close>, as object literals, \<open>JSON.parse\<close> and
  \<open>structuredClone\<close> make them. That object has eleven built-in functions, the accessor
  \<open>__proto__\<close>, whose getter returns the prototype of the object read (so
  \<open>Object.prototype\<close> itself, and \<open>null\<close> when read on \<open>Object.prototype\<close>),
  and the properties the program has written to it. None of the built-in properties is
  enumerable: \<open>Object.entries\<close> and \<open>Object.values\<close> list own properties only.

  The code asks two things of the value read: whether it is falsy, and whether its
  \<open>typeof\<close> is \<open>'object'\<close>. \<open>Object v\<close> is an object of the data,
  \<open>ObjectPrototype\<close> the object \<open>Object.prototype\<close> itself, \<open>Function\<close> a
  built-in function (truthy, \<open>typeof\<close> \<open>'function'\<close>), \<open>Nullish\<close> is
  \<open>undefined\<close> or \<open>null\<close>. \<open>get own written key\<close> reads \<open>key\<close> on an object
  with the own properties \<open>own\<close>, and \<open>get_prototype written key\<close> reads it on
  \<open>Object.prototype\<close>, where \<open>written\<close> are the properties written to
  \<open>Object.prototype\<close> so far.
\<close>

datatype 'a lookup = Object 'a | ObjectPrototype | Function | Nullish

definition prototype_functions :: "string list" where
  "prototype_functions =
     [''constructor'', ''hasOwnProperty'', ''isPrototypeOf'', ''propertyIsEnumerable'',
      ''toLocaleString'', ''toString'', ''valueOf'', ''__defineGetter__'',
      ''__defineSetter__'', ''__lookupGetter__'', ''__lookupSetter__'']"

definition prototype_names :: "string list" where
  "prototype_names = ''__proto__'' # prototype_functions"

definition get_prototype :: "(string \<times> 'a) list \<Rightarrow> string \<Rightarrow> 'a lookup" where
  "get_prototype written key =
     (if key = ''__proto__'' then Nullish
      else (case map_of written key of
              Some v \<Rightarrow> Object v
            | None \<Rightarrow> if key \<in> set prototype_functions then Function else Nullish))"

definition get :: "(string \<times> 'a) list \<Rightarrow> (string \<times> 'a) list \<Rightarrow> string \<Rightarrow> 'a lookup" where
  "get own written key =
     (case map_of own key of
        Some v \<Rightarrow> Object v
      | None \<Rightarrow>
          if key = ''__proto__'' then ObjectPrototype
          else (case map_of written key of
                  Some v \<Rightarrow> Object v
                | None \<Rightarrow> if key \<in> set prototype_functions then Function else Nullish))"


section \<open>mergeComponentData (downloader/output.ts)\<close>

text \<open>
  The loop over \<open>Object.entries(source)\<close>; the target is changed in place, so the
  function returns the target after the loop. Every value of a tree is an object, so
  the first line of the loop body never skips. When a call starts, nothing has been
  written to \<open>Object.prototype\<close>: the target is read with \<open>get target []\<close>.
  \<^item> Source entry. \<open>targetEntry\<close> is nullish: the key gets a new entry with the
    source's name and a copy of its snippets. It is an entry: its snippets become
    \<open>targetEntry.snippets.concat(...)\<close>. It is a container, a built-in function
    (the key is \<open>constructor\<close>, \<open>toString\<close>, ... and the target has no own
    property of that name) or \<open>Object.prototype\<close> (the key is \<open>__proto__\<close>):
    \<open>targetEntry.snippets\<close> is no array and the call of \<open>concat\<close> raises a
    \<open>TypeError\<close>.
  \<^item> Source container. \<open>target[key]\<close> is nullish or a built-in function, which is
    no \<open>'object'\<close>: a fresh \<open>{}\<close> is stored as an own property and merged into.
    It is a container: the recursion changes that container. It is an entry: the
    recursion runs on the entry object itself; with an empty source container nothing
    happens, otherwise keys would be added to the entry: \<open>NotComponentData\<close>.
    It is \<open>Object.prototype\<close>: the recursion runs on \<open>Object.prototype\<close>. With an
    empty source container nothing happens. Otherwise \<open>prototype_write\<close> is what
    the first key of the source container does there: the key \<open>__proto__\<close> reads
    \<open>null\<close> and the assignment to it raises a \<open>TypeError\<close>, since the prototype of
    \<open>Object.prototype\<close> cannot be set; an entry on the name of a built-in function
    raises a \<open>TypeError\<close> as above; every other key is written to
    \<open>Object.prototype\<close>: \<open>PrototypeWritten\<close>.
\<close>

definition prototype_write :: "string \<Rightarrow> node \<Rightarrow> exn" where
  "prototype_write key value =
     (if key = ''__proto__'' then TypeError
      else (case value of
              Entry nm snippets \<Rightarrow>
                if key \<in> set prototype_functions then TypeError else PrototypeWritten
            | Container obj \<Rightarrow> PrototypeWritten))"

fun mergeComponentData ::
  "(string \<times> node) list \<Rightarrow> (string \<times> node) list \<Rightarrow> exn + (string \<times> node) list"
where
  "mergeComponentData target [] = Inr target"
| "mergeComponentData target ((key, Entry nm snippets) # rest) =
     (case get target [] key of
        Object (Entry tname tsnippets) \<Rightarrow>
          mergeComponentData (AList.update key (Entry tname (tsnippets @ snippets)) target) rest
      | Object (Container tobj) \<Rightarrow> Inl TypeError
      | ObjectPrototype \<Rightarrow> Inl TypeError
      | Function \<Rightarrow> Inl TypeError
      | Nullish \<Rightarrow> mergeComponentData (AList.update key (Entry nm snippets) target) rest)"
| "mergeComponentData target ((key, Container obj) # rest) =
     (case get target [] key of
        Object (Entry tname tsnippets) \<Rightarrow>
          (if obj = [] then mergeComponentData target rest else Inl NotComponentData)
      | Object (Container tobj) \<Rightarrow>
          (case mergeComponentData tobj obj of
             Inl e \<Rightarrow> Inl e
           | Inr sub \<Rightarrow> mergeComponentData (AList.update key (Container sub) target) rest)
      | ObjectPrototype \<Rightarrow>
          (case obj of
             [] \<Rightarrow> mergeComponentData target rest
           | (k, v) # others \<Rightarrow> Inl (prototype_write k v))
      | Function \<Rightarrow>
          (case mergeComponentData [] obj of
             Inl e \<Rightarrow> Inl e
           | Inr sub \<Rightarrow> mergeComponentData (AList.update key (Container sub) target) rest)
      | Nullish \<Rightarrow>
          (case mergeComponentData [] obj of
             Inl e \<Rightarrow> Inl e
           | Inr sub \<Rightarrow> mergeComponentData (AList.update key (Container sub) target) rest))"


text \<open>What a leaf holds after a merge, from what the two trees held there.\<close>

fun joined :: "'a list option \<Rightarrow> 'a list option \<Rightarrow> 'a list option" where
  "joined None None = None"
| "joined (Some a) None = Some a"
| "joined None (Some b) = Some b"
| "joined (Some a) (Some b) = Some (a @ b)"



section \<open>deduplicateEcommerceSnippets (downloader/output.ts)\<close>

text \<open>
  \<open>seen\<close> is a \<open>Map\<close>: its entries in insertion order. \<open>seen_loop\<close> is the loop over
  the snippets of one entry, \<open>deduplicate\<close> the inner function on an object with a
  \<open>snippets\<close> array (an entry) or without (a container, whose values are all objects
  and no arrays). On values, \<open>structuredClone\<close> returns a tree equal to its argument;
  the identities of the objects are the subject of the store model further down.
\<close>

definition snippet_key :: "Snippet \<Rightarrow> string" where
  "snippet_key snippet =
     name snippet @ ''|'' @ number_toString (snippet_version snippet) @ ''|''
       @ boolean_toString (supportsDarkMode snippet)"

fun seen_loop :: "(string \<times> Snippet) list \<Rightarrow> Snippet list \<Rightarrow> (string \<times> Snippet) list" where
  "seen_loop seen [] = seen"
| "seen_loop seen (snippet # rest) =
     (let key = snippet_key snippet
      in if map_of seen key = None then seen_loop (seen @ [(key, snippet)]) rest
         else seen_loop seen rest)"

fun deduplicate :: "node \<Rightarrow> node"
  and deduplicate_values :: "(string \<times> node) list \<Rightarrow> (string \<times> node) list" where
  "deduplicate (Entry nm snippets) = Entry nm (map snd (seen_loop [] snippets))"
| "deduplicate (Container obj) = Container (deduplicate_values obj)"
| "deduplicate_values [] = []"
| "deduplicate_values ((key, value) # rest) = (key, deduplicate value) # deduplicate_values rest"

definition structuredClone :: "(string \<times> node) list \<Rightarrow> (string \<times> node) list" where
  "structuredClone data = data"

definition deduplicateEcommerceSnippets :: "(string \<times> node) list \<Rightarrow> (string \<times> node) list" where
  "deduplicateEcommerceSnippets data = deduplicate_values (structuredClone data)"

text \<open>The three fields the key of a snippet is formed from.\<close>

definition variant :: "Snippet \<Rightarrow> string \<times> int \<times> bool" where
  "variant snippet = (name snippet, snippet_version snippet, supportsDarkMode snippet)"

section \<open>Jobs and processJobResult (types.ts, downloader/downloader.ts, worker/worker.ts)\<close>

text \<open>
  A \<open>Job\<close> with its optional fields as options; \<open>delete job.error\<close> sets \<open>None\<close>. Of
  the downloader the model keeps the fields \<open>processJobResult\<close> reads or writes. The
  job is one object, changed in place and then pushed: the function returns the
  downloader and the job after the call. The calls of the logger have no effect on
  either and are left out, with \<open>countComponents\<close>, which only feeds a log line.
\<close>

datatype JobStatus = Pending | Processing | Completed | Failed

record Job =
  url :: string
  status :: JobStatus
  retryCount :: int
  data :: "(string \<times> node) list option"
  error :: "string option"

record Downloader =
  config :: DownloaderConfig
  jobQueue :: "Job list"
  componentData :: "(string \<times> node) list"

definition processJobResult :: "Downloader \<Rightarrow> Job \<Rightarrow> exn + Downloader \<times> Job" where
  "processJobResult this job =
     (if status job = Completed \<and> data job \<noteq> None then
        (case data job of
           None \<Rightarrow> Inr (this, job)
         | Some d \<Rightarrow>
             (case mergeComponentData (componentData this) d of
                Inl e \<Rightarrow> Inl e
              | Inr merged \<Rightarrow> Inr (this\<lparr>componentData := merged\<rparr>, job)))
      else if status job = Failed then
        if retryCount job < maxRetries (config this) then
          let job' = job\<lparr>retryCount := retryCount job + 1, status := Pending, error := None\<rparr>
          in Inr (this\<lparr>jobQueue := jobQueue this @ [job']\<rparr>, job')
        else Inr (this, job)
      else Inr (this, job))"

text \<open>
  \<open>_populateJobQueue\<close> creates the jobs, and a worker reports a job after one
  extraction attempt: it stores the data and \<open>completed\<close>, or the message of the error
  and \<open>failed\<close>, and calls \<open>processJobResult\<close>. \<open>reports\<close> is a sequence of such
  reports on one job.
\<close>

definition populateJobQueue :: "string list \<Rightarrow> Job list" where
  "populateJobQueue urls =
     map (\<lambda>u. \<lparr>url = u, status = Pending, retryCount = 0, data = None, error = None\<rparr>) urls"

datatype extraction = Extracted "(string \<times> node) list" | Threw string

definition worker_report :: "Downloader \<Rightarrow> Job \<Rightarrow> extraction \<Rightarrow> exn + Downloader \<times> Job" where
  "worker_report host job r =
     processJobResult host
       (case r of
          Extracted d \<Rightarrow> job\<lparr>status := Completed, data := Some d\<rparr>
        | Threw msg \<Rightarrow> job\<lparr>status := Failed, error := Some msg\<rparr>)"

fun reports :: "Downloader \<Rightarrow> Job \<Rightarrow> extraction list \<Rightarrow> exn + Downloader \<times> Job" where
  "reports host job [] = Inr (host, job)"
| "reports host job (r # rs) =
     (case worker_report host job r of
        Inl e \<Rightarrow> Inl e
      | Inr (host', job') \<Rightarrow> reports host' job' rs)"

section \<open>Example data\<close>

text \<open>
  Three snippets of one component and two partial results that hold one of them each,
  at the same leaf of the four-level tree.
\<close>

definition snippet_X :: Snippet where
  "snippet_X = \<lparr>code = ''<a/>'', name = ''react'', language = ''jsx'', snippet_version = 4,
     snippet_mode = Some ''light'', supportsDarkMode = True, preview = ''x''\<rparr>"

definition snippet_Y :: Snippet where
  "snippet_Y = \<lparr>code = ''<b/>'', name = ''react'', language = ''jsx'', snippet_version = 4,
     snippet_mode = Some ''dark'', supportsDarkMode = True, preview = ''y''\<rparr>"

definition snippet_Z :: Snippet where
  "snippet_Z = \<lparr>code = ''<c/>'', name = ''vue'', language = ''vue'', snippet_version = 4,
     snippet_mode = None, supportsDarkMode = False, preview = ''z''\<rparr>"

definition partial_of :: "Snippet list \<Rightarrow> (string \<times> node) list" where
  "partial_of snippets =
     [(''Ecommerce'', Container [(''Components'', Container [(''Product Overviews'',
        Container [(''With image grid'', Entry ''With image grid'' snippets)])])])]"

definition leaf_path :: "string list" where
  "leaf_path = [''Ecommerce'', ''Components'', ''Product Overviews'', ''With image grid'']"




section \<open>login (downloader/auth.ts)\<close>

text \<open>
  The page, the terminal and \<open>resilientLogin\<close> are collaborators: the model takes
  their answers from a \<open>World\<close>, as functions of how many times each was asked, and
  counts the calls in a \<open>Calls\<close> record that the functions thread. \<open>resilientLogin\<close>
  returns one of its three results or raises; \<open>page.goto\<close> loads, times out or
  fails otherwise; \<open>process.stdin.isTTY\<close> is fixed during a run.
\<close>

datatype login_result = Success | BadCredentials | Timeout

datatype goto_outcome = Loaded | TimeoutError | OtherFailure string

record Credentials =
  email :: string
  password :: string

record World =
  isTTY :: bool
  goto :: "nat \<Rightarrow> goto_outcome"
  resilientLogin :: "nat \<Rightarrow> Credentials \<Rightarrow> exn + login_result"
  read_answer :: "nat \<Rightarrow> string"
  promptCredentials :: "nat \<Rightarrow> Credentials"

record Calls =
  gotos :: nat
  attempts :: nat
  prompts :: nat

text \<open>\<open>String.prototype.toLowerCase\<close> on the ASCII letters, which decide the answer.\<close>

definition toLowerCase :: "string \<Rightarrow> string" where
  "toLowerCase s =
     map (\<lambda>c. if 65 \<le> (of_char c :: nat) \<and> (of_char c :: nat) \<le> 90
              then char_of ((of_char c :: nat) + 32) else c) s"

text \<open>
  \<open>retryGoto\<close>: the loop \<open>for (attempt = 1; attempt <= maxRetries; attempt++)\<close>. It
  returns after the first navigation that loads, raises a \<open>DownloaderError\<close> when the
  last allowed attempt times out, passes any other error on, and returns without
  navigating when \<open>maxRetries\<close> is below 1.
\<close>

function retryGoto_from :: "World \<Rightarrow> string \<Rightarrow> int \<Rightarrow> int \<Rightarrow> Calls \<Rightarrow> exn + Calls" where
  "retryGoto_from w u maxR attempt calls =
     (if attempt \<le> maxR then
        (case goto w (gotos calls) of
           Loaded \<Rightarrow> Inr (calls\<lparr>gotos := gotos calls + 1\<rparr>)
         | TimeoutError \<Rightarrow>
             if attempt = maxR then
               Inl (DownloaderError
                     (''Navigation to '' @ u @ '' failed after '' @ number_toString maxR
                        @ '' attempts. Please re-run.''))
             else retryGoto_from w u maxR (attempt + 1) (calls\<lparr>gotos := gotos calls + 1\<rparr>)
         | OtherFailure msg \<Rightarrow> Inl (Rethrown msg))
      else Inr calls)"
  by pat_completeness auto
termination
  by (relation "measure (\<lambda>(w, u, maxR, attempt, calls). nat (maxR + 1 - attempt))") auto

declare retryGoto_from.simps [simp del]

definition retryGoto :: "World \<Rightarrow> string \<Rightarrow> int \<Rightarrow> Calls \<Rightarrow> exn + Calls" where
  "retryGoto w u maxR calls = retryGoto_from w u maxR 1 calls"

text \<open>
  The \<open>while (true)\<close> loop of \<open>login\<close>. It need not end: in an interactive run the user
  may answer the prompt with wrong credentials for ever, and the function is partial
  (\<open>None\<close> is a run that never returns). A run that returns gives \<open>Inr ()\<close> or the
  error raised, with the calls made.
\<close>

partial_function (option) login_loop ::
  "World \<Rightarrow> DownloaderConfig \<Rightarrow> Credentials \<Rightarrow> Calls \<Rightarrow> ((exn + unit) \<times> Calls) option"
where
  "login_loop w cfg credentials calls =
     (case retryGoto w (urls_login cfg) (maxRetries cfg) calls of
        Inl e \<Rightarrow> Some (Inl e, calls)
      | Inr calls1 \<Rightarrow>
          (let calls2 = calls1\<lparr>attempts := attempts calls1 + 1\<rparr>
           in case resilientLogin w (attempts calls1) credentials of
                Inl e \<Rightarrow> Some (Inl e, calls2)
              | Inr Success \<Rightarrow> Some (Inr (), calls2)
              | Inr BadCredentials \<Rightarrow>
                  if \<not> isTTY w then
                    Some (Inl (DownloaderError
                      ''Login failed: bad credentials. Cannot prompt in non-interactive mode.''),
                      calls2)
                  else
                    (let answer = toLowerCase (read_answer w (prompts calls2))
                     in if answer = ''n'' \<or> answer = ''no'' then
                          Some (Inl (DownloaderError ''User aborted after failed login attempt.''),
                            calls2)
                        else
                          login_loop w cfg (promptCredentials w (prompts calls2))
                            (calls2\<lparr>prompts := prompts calls2 + 1\<rparr>))
              | Inr Timeout \<Rightarrow>
                  Some (Inl (DownloaderError
                    ''Login failed: timed out waiting for login to complete.''), calls2)))"

definition login :: "World \<Rightarrow> Credentials \<Rightarrow> DownloaderConfig \<Rightarrow> ((exn + unit) \<times> Calls) option" where
  "login w initialCredentials cfg =
     login_loop w cfg initialCredentials \<lparr>gotos = 0, attempts = 0, prompts = 0\<rparr>"

text \<open>
  A non-interactive world in which every navigation loads and every login attempt ends
  with the bad-credentials message.
\<close>

definition silent_world :: World where
  "silent_world =
     \<lparr>isTTY = False, goto = (\<lambda>k. Loaded), resilientLogin = (\<lambda>k c. Inr BadCredentials),
      read_answer = (\<lambda>k. ''y''), promptCredentials = (\<lambda>k. \<lparr>email = '''', password = ''''\<rparr>)\<rparr>"

section \<open>Objects with identity: the store\<close>

text \<open>
  Whether a function changes its argument or returns a new structure cannot be read off
  the tree values above. Here the objects live in a store: a list of objects, an
  object's reference being its index, and \<open>new\<close> or an object literal appending to
  the list. A container object maps its keys to references; an entry object holds its
  name and its array of snippets. Both functions replace the array of an entry as a
  whole (\<open>concat\<close> and \<open>Array.from\<close> build new arrays) and never write into a
  snippet, so arrays and snippets are values of the entry object.

  Following references may not end on a store with a cycle, so the traversals take
  fuel and \<open>None\<close> is running out of it: \<open>atree_of f h a\<close> is the tree found at
  reference \<open>a\<close>, every node with the reference of its object, when the fuel
  \<open>f\<close> exceeds its depth.
\<close>

type_synonym addr = nat

datatype obj = EntryObj string "Snippet list" | ContainerObj "(string \<times> addr) list"

type_synonym store = "obj list"

datatype anode = AEntry addr string "Snippet list" | AContainer addr "(string \<times> anode) list"

fun atree_of :: "nat \<Rightarrow> store \<Rightarrow> addr \<Rightarrow> anode option"
  and atrees_of :: "nat \<Rightarrow> store \<Rightarrow> (string \<times> addr) list \<Rightarrow> (string \<times> anode) list option" where
  "atree_of 0 h a = None"
| "atree_of (Suc f) h a =
     (if a < length h then
        (case h ! a of
           EntryObj nm snippets \<Rightarrow> Some (AEntry a nm snippets)
         | ContainerObj kids \<Rightarrow> map_option (AContainer a) (atrees_of f h kids))
      else None)"
| "atrees_of f h [] = Some []"
| "atrees_of f h ((key, c) # rest) =
     (case atree_of f h c of
        None \<Rightarrow> None
      | Some t \<Rightarrow>
          (case atrees_of f h rest of None \<Rightarrow> None | Some ts \<Rightarrow> Some ((key, t) # ts)))"

fun erase :: "anode \<Rightarrow> node" and erase_all :: "(string \<times> anode) list \<Rightarrow> (string \<times> node) list" where
  "erase (AEntry a nm snippets) = Entry nm snippets"
| "erase (AContainer a kids) = Container (erase_all kids)"
| "erase_all [] = []"
| "erase_all ((key, t) # rest) = (key, erase t) # erase_all rest"

fun addrs :: "anode \<Rightarrow> addr set" and addrs_all :: "(string \<times> anode) list \<Rightarrow> addr set" where
  "addrs (AEntry a nm snippets) = {a}"
| "addrs (AContainer a kids) = insert a (addrs_all kids)"
| "addrs_all [] = {}"
| "addrs_all ((key, t) # rest) = addrs t \<union> addrs_all rest"

definition tree_of :: "nat \<Rightarrow> store \<Rightarrow> addr \<Rightarrow> node option" where
  "tree_of f h a = map_option erase (atree_of f h a)"

subsection \<open>structuredClone\<close>

text \<open>
  The built-in deep copy, on an object graph without shared objects (a tree, as the
  accumulator is): every object reached is copied into a new object, the copies of the
  values before the copy of the object that holds them.
\<close>

fun structuredClone_at :: "nat \<Rightarrow> store \<Rightarrow> addr \<Rightarrow> (addr \<times> store) option"
  and clone_values ::
    "nat \<Rightarrow> store \<Rightarrow> (string \<times> addr) list \<Rightarrow> ((string \<times> addr) list \<times> store) option" where
  "structuredClone_at 0 h a = None"
| "structuredClone_at (Suc f) h a =
     (if a < length h then
        (case h ! a of
           EntryObj nm snippets \<Rightarrow> Some (length h, h @ [EntryObj nm snippets])
         | ContainerObj kids \<Rightarrow>
             (case clone_values f h kids of
                None \<Rightarrow> None
              | Some (kids', h') \<Rightarrow> Some (length h', h' @ [ContainerObj kids'])))
      else None)"
| "clone_values f h [] = Some ([], h)"
| "clone_values f h ((key, c) # rest) =
     (case structuredClone_at f h c of
        None \<Rightarrow> None
      | Some (c', h1) \<Rightarrow>
          (case clone_values f h1 rest of
             None \<Rightarrow> None
           | Some (rest', h2) \<Rightarrow> Some ((key, c') # rest', h2)))"

subsection \<open>deduplicateEcommerceSnippets on the store\<close>

text \<open>
  The inner function \<open>deduplicate(obj)\<close> writes \<open>obj['snippets']\<close> of an entry object
  in place and calls itself on the values of a container object. The exported function
  clones its argument, runs \<open>deduplicate\<close> on the clone and returns the clone.
\<close>

fun deduplicate_at :: "nat \<Rightarrow> store \<Rightarrow> addr \<Rightarrow> store option"
  and deduplicate_each :: "nat \<Rightarrow> store \<Rightarrow> addr list \<Rightarrow> store option" where
  "deduplicate_at 0 h a = None"
| "deduplicate_at (Suc f) h a =
     (if a < length h then
        (case h ! a of
           EntryObj nm snippets \<Rightarrow> Some (h[a := EntryObj nm (map snd (seen_loop [] snippets))])
         | ContainerObj kids \<Rightarrow> deduplicate_each f h (map snd kids))
      else None)"
| "deduplicate_each f h [] = Some h"
| "deduplicate_each f h (c # rest) =
     (case deduplicate_at f h c of None \<Rightarrow> None | Some h1 \<Rightarrow> deduplicate_each f h1 rest)"

definition deduplicateEcommerceSnippets_at :: "nat \<Rightarrow> store \<Rightarrow> addr \<Rightarrow> (addr \<times> store) option" where
  "deduplicateEcommerceSnippets_at f h d =
     (case structuredClone_at f h d of
        None \<Rightarrow> None
      | Some (cloned, h1) \<Rightarrow>
          (case deduplicate_at f h1 cloned of None \<Rightarrow> None | Some h2 \<Rightarrow> Some (cloned, h2)))"

text \<open>For the proofs: the store with the entries at the references in \<open>S\<close> deduplicated.\<close>

fun dedup_obj :: "obj \<Rightarrow> obj" where
  "dedup_obj (EntryObj nm snippets) = EntryObj nm (map snd (seen_loop [] snippets))"
| "dedup_obj (ContainerObj kids) = ContainerObj kids"

definition dedup_on :: "addr set \<Rightarrow> store \<Rightarrow> store" where
  "dedup_on S h = map (\<lambda>i. if i \<in> S then dedup_obj (h ! i) else h ! i) [0..<length h]"

fun adedup_on :: "addr set \<Rightarrow> anode \<Rightarrow> anode"
  and adedup_all :: "addr set \<Rightarrow> (string \<times> anode) list \<Rightarrow> (string \<times> anode) list" where
  "adedup_on S (AEntry a nm snippets) =
     AEntry a nm (if a \<in> S then map snd (seen_loop [] snippets) else snippets)"
| "adedup_on S (AContainer a kids) = AContainer a (adedup_all S kids)"
| "adedup_all S [] = []"
| "adedup_all S ((key, t) # rest) = (key, adedup_on S t) # adedup_all S rest"

subsection \<open>mergeComponentData on the store\<close>

text \<open>
  \<open>target\<close> and \<open>source\<close> are references. \<open>Object.prototype\<close> is an object of
  the store as well, at the reference \<open>proto\<close>: a container object whose keys are
  the properties written to it (its built-in properties are not listed). Reading
  \<open>target[key]\<close> is \<open>get_at\<close>: on \<open>Object.prototype\<close> itself
  \<open>get_prototype\<close>, on every other object \<open>get\<close> with the properties written
  to \<open>Object.prototype\<close>. The assignment \<open>target[key] = value\<close> is \<open>set_at\<close>:
  it is reached only after the read gave a nullish value or a built-in function, and then
  it makes an own property, except for the key \<open>__proto__\<close> on \<open>Object.prototype\<close>,
  whose setter raises a \<open>TypeError\<close> (the prototype of \<open>Object.prototype\<close> cannot
  be set).

  The loop reads the target object anew for every key, since the body writes to it.
  \<^item> Source entry. \<open>targetEntry\<close> nullish: a new entry object is stored under the
    key. An entry object, own or inherited: its snippets are replaced in that object.
    A container object, \<open>Object.prototype\<close> or a built-in function:
    \<open>targetEntry.snippets\<close> is no array, the call of \<open>concat\<close> raises a
    \<open>TypeError\<close>.
  \<^item> Source container. \<open>target[key]\<close> nullish or a built-in function: a new
    \<open>{}\<close> is stored under the key and merged into. A container object, own or
    inherited: the recursion runs on that object. \<open>Object.prototype\<close> (the key
    \<open>__proto__\<close> on an object without an own property of that name): the recursion
    runs on \<open>Object.prototype\<close>, and what it writes there is inherited by every
    object from then on. An entry object: nothing happens for an empty source
    container, keys are written into the entry otherwise (\<open>NotComponentData\<close>).
  The function returns nothing: its result is the store after the call, read through
  the same reference \<open>target\<close>. \<open>None\<close> is running out of fuel or a reference to
  no object; \<open>merge_all_at\<close> merges several sources into one target, one call after
  the other.
\<close>

definition properties :: "store \<Rightarrow> addr \<Rightarrow> (string \<times> addr) list" where
  "properties h x = (case h ! x of EntryObj nm snippets \<Rightarrow> [] | ContainerObj kids \<Rightarrow> kids)"

definition get_at :: "addr \<Rightarrow> store \<Rightarrow> addr \<Rightarrow> string \<Rightarrow> addr lookup" where
  "get_at proto h target key =
     (if target = proto then get_prototype (properties h proto) key
      else get (properties h target) (properties h proto) key)"

definition set_at :: "addr \<Rightarrow> store \<Rightarrow> addr \<Rightarrow> string \<Rightarrow> addr \<Rightarrow> exn + store" where
  "set_at proto h target key v =
     (if target = proto \<and> key = ''__proto__'' then Inl TypeError
      else Inr (h[target := ContainerObj (AList.update key v (properties h target))]))"

fun mergeComponentData_at :: "nat \<Rightarrow> addr \<Rightarrow> store \<Rightarrow> addr \<Rightarrow> addr \<Rightarrow> (exn + store) option"
  and merge_entries_at ::
    "nat \<Rightarrow> addr \<Rightarrow> store \<Rightarrow> addr \<Rightarrow> (string \<times> addr) list \<Rightarrow> (exn + store) option" where
  "mergeComponentData_at 0 proto h target source = None"
| "mergeComponentData_at (Suc f) proto h target source =
     (if source < length h then
        (case h ! source of
           EntryObj nm snippets \<Rightarrow> Some (Inl NotComponentData)
         | ContainerObj entries \<Rightarrow> merge_entries_at f proto h target entries)
      else None)"
| "merge_entries_at f proto h target [] = Some (Inr h)"
| "merge_entries_at f proto h target ((key, v) # rest) =
     (if target < length h \<and> v < length h \<and> proto < length h then
        (case h ! target of
           EntryObj tn ts \<Rightarrow> Some (Inl NotComponentData)
         | ContainerObj tkids \<Rightarrow>
             (case h ! v of
                EntryObj nm snippets \<Rightarrow>
                  (case get_at proto h target key of
                     Object te \<Rightarrow>
                       if te < length h then
                         (case h ! te of
                            EntryObj tname tsnippets \<Rightarrow>
                              merge_entries_at f proto
                                (h[te := EntryObj tname (tsnippets @ snippets)]) target rest
                          | ContainerObj tobj \<Rightarrow> Some (Inl TypeError))
                       else None
                   | ObjectPrototype \<Rightarrow> Some (Inl TypeError)
                   | Function \<Rightarrow> Some (Inl TypeError)
                   | Nullish \<Rightarrow>
                       (case set_at proto (h @ [EntryObj nm snippets]) target key (length h) of
                          Inl e \<Rightarrow> Some (Inl e)
                        | Inr h1 \<Rightarrow> merge_entries_at f proto h1 target rest))
              | ContainerObj obj \<Rightarrow>
                  (case get_at proto h target key of
                     Object tc \<Rightarrow>
                       if tc < length h then
                         (case h ! tc of
                            EntryObj tname tsnippets \<Rightarrow>
                              if obj = [] then merge_entries_at f proto h target rest
                              else Some (Inl NotComponentData)
                          | ContainerObj tobj \<Rightarrow>
                              (case mergeComponentData_at f proto h tc v of
                                 None \<Rightarrow> None
                               | Some (Inl e) \<Rightarrow> Some (Inl e)
                               | Some (Inr h1) \<Rightarrow> merge_entries_at f proto h1 target rest))
                       else None
                   | ObjectPrototype \<Rightarrow>
                       (case mergeComponentData_at f proto h proto v of
                          None \<Rightarrow> None
                        | Some (Inl e) \<Rightarrow> Some (Inl e)
                        | Some (Inr h1) \<Rightarrow> merge_entries_at f proto h1 target rest)
                   | Function \<Rightarrow>
                       (case set_at proto (h @ [ContainerObj []]) target key (length h) of
                          Inl e \<Rightarrow> Some (Inl e)
                        | Inr h1 \<Rightarrow>
                            (case mergeComponentData_at f proto h1 (length h) v of
                               None \<Rightarrow> None
                             | Some (Inl e) \<Rightarrow> Some (Inl e)
                             | Some (Inr h2) \<Rightarrow> merge_entries_at f proto h2 target rest))
                   | Nullish \<Rightarrow>
                       (case set_at proto (h @ [ContainerObj []]) target key (length h) of
                          Inl e \<Rightarrow> Some (Inl e)
                        | Inr h1 \<Rightarrow>
                            (case mergeComponentData_at f proto h1 (length h) v of
                               None \<Rightarrow> None
                             | Some (Inl e) \<Rightarrow> Some (Inl e)
                             | Some (Inr h2) \<Rightarrow> merge_entries_at f proto h2 target rest)))))
      else None)"


text \<open>
  \<open>grows h h'\<close>: every object of \<open>h\<close> is still in \<open>h'\<close>, a container with at
  least its keys and an entry with its name.
\<close>

definition keys_of :: "store \<Rightarrow> addr \<Rightarrow> string set" where
  "keys_of h x = (case h ! x of EntryObj nm snippets \<Rightarrow> {} | ContainerObj kids \<Rightarrow> fst ` set kids)"

definition is_container :: "store \<Rightarrow> addr \<Rightarrow> bool" where
  "is_container h x = (case h ! x of EntryObj nm snippets \<Rightarrow> False | ContainerObj kids \<Rightarrow> True)"

definition grows :: "store \<Rightarrow> store \<Rightarrow> bool" where
  "grows h h' =
     (length h \<le> length h'
      \<and> (\<forall>x < length h. is_container h' x = is_container h x \<and> keys_of h x \<subseteq> keys_of h' x))"

text \<open>
  \<open>well_formed proto h L\<close>: a store of component data on which nothing has been
  written to \<open>Object.prototype\<close>. \<open>L\<close> gives every object its level: an entry
  object has level 0 and a container object a level one above the level of each of its
  values, so that all entries below an object lie at the same depth, as in
  \<open>ComponentData\<close>. Every value of a container is an object of the store and not
  \<open>Object.prototype\<close>, and no key is the name of a built-in property of
  \<open>Object.prototype\<close>. Objects may be shared between containers.
\<close>

definition well_formed :: "addr \<Rightarrow> store \<Rightarrow> (addr \<Rightarrow> nat) \<Rightarrow> bool" where
  "well_formed proto h L =
     (proto < length h \<and> h ! proto = ContainerObj []
      \<and> list_all
          (\<lambda>x. case h ! x of
                  EntryObj nm snippets \<Rightarrow> L x = 0
                | ContainerObj kids \<Rightarrow>
                    0 < L x
                    \<and> list_all
                        (\<lambda>(key, c). c < length h \<and> c \<noteq> proto \<and> L x = Suc (L c)
                                      \<and> key \<notin> set prototype_names)
                        kids)
          [0..<length h])"

text \<open>
  Stores for the examples. \<open>example_store\<close>: an empty accumulator object at reference
  0 and the tree \<open>partial_of [snippet_X, snippet_Y]\<close> with its root at reference 5;
  \<open>example_levels\<close> are the levels of its objects and of an \<open>Object.prototype\<close>
  appended at reference 6. \<open>prototype_store\<close>: an empty accumulator at reference 0,
  \<open>Object.prototype\<close> at reference 1, at reference 6 the root of a partial result
  whose product is called \<open>__proto__\<close> (an own property, as the computed key of an
  object literal makes it), and at reference 11 the root of \<open>partial_of [snippet_Y]\<close>.
\<close>

definition example_store :: store where
  "example_store =
     [ContainerObj [],
      EntryObj ''With image grid'' [snippet_X, snippet_Y],
      ContainerObj [(''With image grid'', 1)],
      ContainerObj [(''Product Overviews'', 2)],
      ContainerObj [(''Components'', 3)],
      ContainerObj [(''Ecommerce'', 4)]]"

definition example_levels :: "addr \<Rightarrow> nat" where
  "example_levels x = [4, 0, 1, 2, 3, 4, 1] ! x"


section \<open>Printed numbers are read back uniquely\<close>

lemma digit_char_inj: "a < 10 \<Longrightarrow> b < 10 \<Longrightarrow> digit_char a = digit_char b \<Longrightarrow> a = b"
proof -
  assume a: "a < 10" and b: "b < 10" and e: "digit_char a = digit_char b"
  have d: "distinct ''0123456789''" by simp
  have "''0123456789'' ! a = ''0123456789'' ! b" using a b e by (simp add: digit_char_def)
  then show "a = b" using a b d by (simp add: nth_eq_iff_index_eq)
qed

lemma digit_char_in: "digit_char d \<in> set ''0123456789''"
  unfolding digit_char_def by (rule nth_mem) simp

lemma digits_not_Nil: "digits n \<noteq> []"
  by (subst digits.simps) simp

lemma digits_chars: "set (digits n) \<subseteq> set ''0123456789''"
proof (induction n rule: digits.induct)
  case (1 n)
  show ?case
  proof (cases "n < 10")
    case True
    then show ?thesis using digit_char_in [of n] by (subst digits.simps) simp
  next
    case False
    then show ?thesis using 1 digit_char_in [of "n mod 10"] by (subst digits.simps) simp
  qed
qed

lemma digits_inj: "digits n = digits m \<Longrightarrow> n = m"
proof (induction n arbitrary: m rule: digits.induct)
  case (1 n)
  show ?case
  proof (cases "n < 10")
    case n: True
    show ?thesis
    proof (cases "m < 10")
      case True
      then show ?thesis using n "1.prems" digit_char_inj [of n m]
        by (simp add: digits.simps [of n] digits.simps [of m])
    next
      case False
      then show ?thesis using n "1.prems" digits_not_Nil [of "m div 10"]
        by (simp add: digits.simps [of n] digits.simps [of m])
    qed
  next
    case n: False
    show ?thesis
    proof (cases "m < 10")
      case True
      then show ?thesis using n "1.prems" digits_not_Nil [of "n div 10"]
        by (simp add: digits.simps [of n] digits.simps [of m])
    next
      case False
      then have "digits (n div 10) = digits (m div 10)"
        and c: "digit_char (n mod 10) = digit_char (m mod 10)"
        using n "1.prems" by (simp_all add: digits.simps [of n] digits.simps [of m])
      then have "n div 10 = m div 10" using "1.IH" n by blast
      moreover have "n mod 10 = m mod 10"
        using c digit_char_inj [of "n mod 10" "m mod 10"] by simp
      ultimately show ?thesis by (metis div_mult_mod_eq)
    qed
  qed
qed

lemma takeWhile_until: "x \<notin> set xs \<Longrightarrow> takeWhile (\<lambda>c. c \<noteq> x) (xs @ x # ys) = xs"
  by (induction xs) auto

lemma split_at_char:
  "c \<notin> set x \<Longrightarrow> c \<notin> set y \<Longrightarrow> x @ c # r = y @ c # s \<Longrightarrow> x = y \<and> r = s"
proof (induction x arbitrary: y)
  case Nil
  then show ?case by (cases y) auto
next
  case (Cons a x)
  then show ?case by (cases y) auto
qed

lemma dash_notin_digits: "CHR ''-'' \<notin> set (digits n)"
  using digits_chars [of n] by auto

lemma bar_notin_digits: "CHR ''|'' \<notin> set (digits n)"
  using digits_chars [of n] by auto

lemma hd_digits_not_dash: "hd (digits n) \<noteq> CHR ''-''"
  using dash_notin_digits [of n] digits_not_Nil [of n] by (cases "digits n") auto

lemma digits_tail_eq:
  assumes "digits a @ t1 = digits b @ t2"
    and "t1 = [] \<or> hd t1 = CHR ''-''" and "t2 = [] \<or> hd t2 = CHR ''-''"
  shows "a = b \<and> t1 = t2"
proof -
  have tw: "takeWhile (\<lambda>c. c \<noteq> CHR ''-'') (digits n @ t) = digits n"
    if "t = [] \<or> hd t = CHR ''-''" for n t
  proof (cases t)
    case Nil
    then show ?thesis using dash_notin_digits [of n] by auto
  next
    case (Cons c cs)
    then have "c = CHR ''-''" using that by simp
    then show ?thesis using Cons dash_notin_digits [of n] by (simp add: takeWhile_until)
  qed
  have "digits a = digits b"
    using tw [OF assms(2), of a] tw [OF assms(3), of b] assms(1) by simp
  then show ?thesis using assms(1) digits_inj by auto
qed

lemma number_tail_eq:
  assumes "number_toString a @ t1 = number_toString b @ t2"
    and "t1 = [] \<or> hd t1 = CHR ''-''" and "t2 = [] \<or> hd t2 = CHR ''-''"
  shows "a = b \<and> t1 = t2"
proof -
  consider "a < 0" "b < 0" | "a < 0" "\<not> b < 0" | "\<not> a < 0" "b < 0" | "\<not> a < 0" "\<not> b < 0"
    by blast
  then show ?thesis
  proof cases
    case 1
    then have "digits (nat (- a)) @ t1 = digits (nat (- b)) @ t2"
      using assms(1) by (simp add: number_toString_def)
    from digits_tail_eq [OF this assms(2,3)] 1 show ?thesis by auto
  next
    case 2
    then have "CHR ''-'' # digits (nat (- a)) @ t1 = digits (nat b) @ t2"
      using assms(1) by (simp add: number_toString_def)
    then have "hd (digits (nat b)) = CHR ''-''" using digits_not_Nil [of "nat b"]
      by (cases "digits (nat b)") auto
    then show ?thesis using hd_digits_not_dash by blast
  next
    case 3
    then have "digits (nat a) @ t1 = CHR ''-'' # digits (nat (- b)) @ t2"
      using assms(1) by (simp add: number_toString_def)
    then have "hd (digits (nat a)) = CHR ''-''" using digits_not_Nil [of "nat a"]
      by (cases "digits (nat a)") auto
    then show ?thesis using hd_digits_not_dash by blast
  next
    case 4
    then have "digits (nat a) @ t1 = digits (nat b) @ t2"
      using assms(1) by (simp add: number_toString_def)
    from digits_tail_eq [OF this assms(2,3)] 4 show ?thesis by auto
  qed
qed

lemma number_toString_inj: "number_toString a = number_toString b \<Longrightarrow> a = b"
  using number_tail_eq [of a "[]" b "[]"] by simp

lemma bar_notin_number: "CHR ''|'' \<notin> set (number_toString a)"
  using bar_notin_digits by (simp add: number_toString_def)

lemmas print_simps = number_toString_def digits.simps digit_char_def boolean_toString_def

section \<open>First occurrences\<close>

lemma keep_new_eq: "keep_new k S xs = first_occurrences k (filter (\<lambda>x. k x \<notin> S) xs)"
proof (induction xs arbitrary: S)
  case Nil
  then show ?case by simp
next
  case (Cons x xs)
  have "filter (\<lambda>y. k y \<noteq> k x) (filter (\<lambda>y. k y \<notin> S) xs) = filter (\<lambda>y. k y \<notin> insert (k x) S) xs"
    by (auto intro: filter_cong)
  then show ?case using Cons by simp
qed

lemma first_occurrences_cong:
  "(\<And>x y. x \<in> set xs \<Longrightarrow> y \<in> set xs \<Longrightarrow> (k x = k y) = (k' x = k' y))
   \<Longrightarrow> first_occurrences k xs = first_occurrences k' xs"
proof (induction k xs rule: first_occurrences.induct)
  case (1 k)
  then show ?case by simp
next
  case (2 k x xs)
  have f: "filter (\<lambda>y. k y \<noteq> k x) xs = filter (\<lambda>y. k' y \<noteq> k' x) xs"
    using "2.prems" by (auto intro!: filter_cong)
  have "first_occurrences k (filter (\<lambda>y. k y \<noteq> k x) xs)
        = first_occurrences k' (filter (\<lambda>y. k y \<noteq> k x) xs)"
    by (rule "2.IH") (use "2.prems" in auto)
  then show ?case using f by simp
qed

lemma set_first_occurrences_subset: "set (first_occurrences k xs) \<subseteq> set xs"
  by (induction k xs rule: first_occurrences.induct) auto

lemma keys_first_occurrences: "k ` set (first_occurrences k xs) = k ` set xs"
proof (induction k xs rule: first_occurrences.induct)
  case (1 k)
  then show ?case by simp
next
  case (2 k x xs)
  then show ?case by auto
qed

lemma distinct_keys_first_occurrences: "distinct (map k (first_occurrences k xs))"
proof (induction k xs rule: first_occurrences.induct)
  case (1 k)
  then show ?case by simp
next
  case (2 k x xs)
  have "k x \<notin> k ` set (first_occurrences k (filter (\<lambda>y. k y \<noteq> k x) xs))"
    using set_first_occurrences_subset [of k "filter (\<lambda>y. k y \<noteq> k x) xs"] by auto
  then show ?case using 2 by simp
qed

lemma first_occurrences_id: "distinct (map k xs) \<Longrightarrow> first_occurrences k xs = xs"
proof (induction xs)
  case Nil
  then show ?case by simp
next
  case (Cons x xs)
  from Cons.prems have "k x \<notin> k ` set xs" by simp
  then have "\<forall>y\<in>set xs. k y \<noteq> k x" by (metis imageI)
  then have "filter (\<lambda>y. k y \<noteq> k x) xs = xs" by (simp add: filter_id_conv)
  then show ?case using Cons by simp
qed

lemma first_occurrences_idem:
  "first_occurrences k (first_occurrences k xs) = first_occurrences k xs"
  by (simp add: first_occurrences_id distinct_keys_first_occurrences)

lemma length_first_occurrences: "length (first_occurrences k xs) = card (k ` set xs)"
proof -
  have "length (first_occurrences k xs) = length (map k (first_occurrences k xs))" by simp
  also have "\<dots> = card (set (map k (first_occurrences k xs)))"
    using distinct_card [OF distinct_keys_first_occurrences [of k xs]] by simp
  also have "\<dots> = card (k ` set xs)" by (simp add: keys_first_occurrences)
  finally show ?thesis .
qed


section \<open>Format equality\<close>

lemma toString_alt:
  "toString f =
     framework f @ CHR ''-'' # CHR ''v'' # number_toString (version f) @ mode_suffix (mode f)"
  by (simp add: toString_def mode_suffix_def split: option.splits)

lemma mode_suffix_inj: "mode_suffix a = mode_suffix b \<Longrightarrow> a = b"
  by (auto simp: mode_suffix_def split: option.splits)

lemma mode_suffix_hd: "mode_suffix a = [] \<or> hd (mode_suffix a) = CHR ''-''"
  by (auto simp: mode_suffix_def split: option.splits)

lemma equals_if_fields:
  "framework a = framework b \<Longrightarrow> version a = version b \<Longrightarrow> mode a = mode b \<Longrightarrow> equals a b"
  by (simp add: equals_def toString_alt)

text \<open>
  Claim C7, as the code has it. \<open>equals\<close> compares the canonical strings, and the string
  is built from all three fields. Two formats that agree on framework, version and mode
  are equal; the converse holds when neither framework name contains the separator
  \<open>-\<close> (as for \<open>react\<close>, \<open>vue\<close> and \<open>html\<close>): then \<open>equals\<close> is true if and only
  if the formats agree on all three dimensions.
\<close>

theorem equals_iff_fields:
  "(framework a = framework b \<and> version a = version b \<and> mode a = mode b \<longrightarrow> equals a b)
   \<and> (CHR ''-'' \<notin> set (framework a) \<and> CHR ''-'' \<notin> set (framework b) \<longrightarrow>
        (equals a b \<longleftrightarrow> framework a = framework b \<and> version a = version b \<and> mode a = mode b))"
proof (rule conjI; rule impI)
  assume "framework a = framework b \<and> version a = version b \<and> mode a = mode b"
  then show "equals a b" by (simp add: equals_if_fields)
next
  assume d: "CHR ''-'' \<notin> set (framework a) \<and> CHR ''-'' \<notin> set (framework b)"
  show "equals a b \<longleftrightarrow> framework a = framework b \<and> version a = version b \<and> mode a = mode b"
  proof
    assume "equals a b"
    then have e:
      "framework a @ CHR ''-'' # (CHR ''v'' # number_toString (version a) @ mode_suffix (mode a))
       = framework b @ CHR ''-'' # (CHR ''v'' # number_toString (version b) @ mode_suffix (mode b))"
      by (simp add: equals_def toString_alt)
    from d have da: "CHR ''-'' \<notin> set (framework a)" and db: "CHR ''-'' \<notin> set (framework b)"
      by simp_all
    from split_at_char [OF da db e]
    have f: "framework a = framework b"
      and r: "number_toString (version a) @ mode_suffix (mode a)
              = number_toString (version b) @ mode_suffix (mode b)"
      by simp_all
    from number_tail_eq [OF r mode_suffix_hd mode_suffix_hd] f mode_suffix_inj
    show "framework a = framework b \<and> version a = version b \<and> mode a = mode b" by auto
  next
    assume "framework a = framework b \<and> version a = version b \<and> mode a = mode b"
    then show "equals a b" by (simp add: equals_if_fields)
  qed
qed

theorem equals_iff_fields_witness:
  "CHR ''-'' \<notin> set (framework \<lparr>framework = ''react'', version = 4, mode = Some ''light''\<rparr>)
   \<and> CHR ''-'' \<notin> set (framework \<lparr>framework = ''react'', version = 4, mode = Some ''dark''\<rparr>)
   \<and> \<not> equals \<lparr>framework = ''react'', version = 4, mode = Some ''light''\<rparr>
               \<lparr>framework = ''react'', version = 4, mode = Some ''dark''\<rparr>
   \<and> equals \<lparr>framework = ''react'', version = 4, mode = Some ''light''\<rparr>
            \<lparr>framework = ''react'', version = 4, mode = Some ''light''\<rparr>"
  using equals_iff_fields [of "\<lparr>framework = ''react'', version = 4, mode = Some ''light''\<rparr>"
      "\<lparr>framework = ''react'', version = 4, mode = Some ''dark''\<rparr>"]
    equals_iff_fields [of "\<lparr>framework = ''react'', version = 4, mode = Some ''light''\<rparr>"
      "\<lparr>framework = ''react'', version = 4, mode = Some ''light''\<rparr>"]
  by simp

text \<open>
  The claim as stated fails for framework names that contain \<open>-\<close>: the formats
  \<open>{framework: 'a-v1', version: 2, mode: null}\<close> and
  \<open>{framework: 'a', version: 1, mode: 'v2'}\<close> both have the string \<open>a-v1-v2\<close>.
\<close>

theorem equals_counterexample:
  "equals \<lparr>framework = ''a-v1'', version = 2, mode = None\<rparr>
          \<lparr>framework = ''a'', version = 1, mode = Some ''v2''\<rparr>
   \<and> framework \<lparr>framework = ''a-v1'', version = 2, mode = None\<rparr>
       \<noteq> framework \<lparr>framework = ''a'', version = 1, mode = Some ''v2''\<rparr>"
  by (simp add: equals_def toString_def print_simps)

section \<open>The format loops compute their closed forms\<close>

lemma yield_down_take: "i \<le> length xs \<Longrightarrow> yield_down xs i = rev (take i xs)"
  by (induction i) (auto simp: take_Suc_conv_app_nth)

lemma iterate_alt:
  "iterate this = (dirlist (direction this) (items this), this\<lparr>direction := flip (direction this)\<rparr>)"
  by (simp add: iterate_def dirlist_def flip_def yield_down_take)

lemma push_modes_eq: "push_modes fw v ms formats = formats @ map (mk fw v) ms"
  by (induction ms arbitrary: formats) (auto simp: mk_def)

lemma for_versions_eq:
  "for_versions fw vs (R, formats) =
     (R\<lparr>direction := (flip ^^ length vs) (direction R)\<rparr>,
      formats @ vblock fw vs (direction R) (items R))"
proof (induction vs arbitrary: R formats)
  case Nil
  then show ?case by simp
next
  case (Cons v vs)
  show ?case
    by (simp add: iterate_alt Cons push_modes_eq funpow_swap1)
qed

lemma for_frameworks_eq:
  "snd (snd (for_frameworks fws (VR, MR, formats))) =
     formats @ fblock fws (direction VR) (items VR) (direction MR) (items MR)"
proof (induction fws arbitrary: VR MR formats)
  case Nil
  then show ?case by simp
next
  case (Cons fw fws)
  show ?case
    by (simp add: iterate_alt for_versions_eq Cons dirlist_def)
qed

lemma set_dirlist [simp]: "set (dirlist d xs) = set xs"
  by (simp add: dirlist_def)

lemma distinct_dirlist [simp]: "distinct (dirlist d xs) = distinct xs"
  by (simp add: dirlist_def)

lemma length_dirlist [simp]: "length (dirlist d xs) = length xs"
  by (simp add: dirlist_def)

lemma set_vblock: "set (vblock fw vs d M) = {mk fw v m | v m. v \<in> set vs \<and> m \<in> set M}"
  by (induction vs arbitrary: d) auto

lemma set_fblock: "set (fblock fws dv V dm M) = product3 fws V M"
  by (induction fws arbitrary: dv dm) (auto simp: set_vblock product3_def)

lemma mk_inj: "mk f v m = mk f' v' m' \<longleftrightarrow> f = f' \<and> v = v' \<and> m = m'"
  by (auto simp: mk_def)

lemma distinct_vblock: "distinct vs \<Longrightarrow> distinct M \<Longrightarrow> distinct (vblock fw vs d M)"
  by (induction vs arbitrary: d) (auto simp: set_vblock distinct_map inj_on_def mk_inj)

lemma distinct_fblock:
  "distinct fws \<Longrightarrow> distinct V \<Longrightarrow> distinct M \<Longrightarrow> distinct (fblock fws dv V dm M)"
  by (induction fws arbitrary: dv dm) (auto simp: set_vblock set_fblock product3_def distinct_vblock mk_inj)

lemma generateFormats_Some:
  "mode s = Some m \<Longrightarrow>
   generateFormats s c =
     Some (fblock (start_first (framework s) (frameworks c)) 1
             (start_first (version s) (versions c)) 1 (start_first m (modes c)))"
  by (simp add: generateFormats_def Let_def iterate_alt new_ReflectingArray_def
      for_frameworks_eq dirlist_def start_first_def)

lemma generateFormats_None:
  "mode s = None \<Longrightarrow> modes c = m # ms \<Longrightarrow>
   generateFormats s c =
     Some (fblock (start_first (framework s) (frameworks c)) 1
             (start_first (version s) (versions c)) 1 (m # m # ms))"
  by (simp add: generateFormats_def Let_def iterate_alt new_ReflectingArray_def
      for_frameworks_eq dirlist_def start_first_def)

lemma length_vblock: "length (vblock fw vs d M) = length vs * length M"
  by (induction vs arbitrary: d) auto

lemma length_fblock: "length (fblock fws dv V dm M) = length fws * (length V * length M)"
  by (induction fws arbitrary: dv dm) (auto simp: length_vblock)

lemma gray_Cons: "gray (a # ys) \<longleftrightarrow> gray ys \<and> (ys \<noteq> [] \<longrightarrow> framework a = framework (hd ys) \<longrightarrow> one_differs a (hd ys))"
  by (cases ys) auto

lemma gray_append:
  "gray (xs @ ys) \<longleftrightarrow>
     gray xs \<and> gray ys \<and>
     (xs \<noteq> [] \<and> ys \<noteq> [] \<longrightarrow> framework (last xs) = framework (hd ys) \<longrightarrow> one_differs (last xs) (hd ys))"
proof (induction xs)
  case Nil
  then show ?case by simp
next
  case (Cons a xs)
  show ?case
  proof (cases xs)
    case Nil
    then show ?thesis by (simp add: gray_Cons)
  next
    case (Cons b zs)
    then show ?thesis using Cons.IH by (auto simp: gray_Cons)
  qed
qed

lemma gray_map_modes: "distinct L \<Longrightarrow> gray (map (mk fw v) L)"
proof (induction L)
  case Nil
  then show ?case by simp
next
  case (Cons a L)
  then show ?case by (cases L) (auto simp: gray_Cons one_differs_def mk_def)
qed

lemma hd_dirlist_flip: "M \<noteq> [] \<Longrightarrow> hd (dirlist (flip d) M) = last (dirlist d M)"
  by (auto simp: dirlist_def flip_def hd_rev last_rev)

lemma vblock_no_modes: "vblock fw vs d [] = []"
  by (induction vs arbitrary: d) (auto simp: dirlist_def)

lemma hd_vblock: "M \<noteq> [] \<Longrightarrow> hd (vblock fw (v # vs) d M) = mk fw v (hd (dirlist d M))"
  by (simp add: dirlist_def hd_map hd_append)

lemma vblock_Nil_iff: "vblock fw vs d M = [] \<longleftrightarrow> vs = [] \<or> M = []"
  by (cases vs) (auto simp: vblock_no_modes dirlist_def)

lemma gray_vblock:
  assumes "distinct M"
  shows "distinct vs \<Longrightarrow> gray (vblock fw vs d M)"
proof (induction vs arbitrary: d)
  case Nil
  then show ?case by simp
next
  case (Cons v vs)
  show ?case
  proof (cases "M = []")
    case True
    then show ?thesis by (simp add: vblock_no_modes)
  next
    case M: False
    have g1: "gray (map (mk fw v) (dirlist d M))" using assms by (simp add: gray_map_modes)
    have g2: "gray (vblock fw vs (flip d) M)" using Cons by simp
    have link: "one_differs (last (map (mk fw v) (dirlist d M))) (hd (vblock fw vs (flip d) M))"
      if ne: "vs \<noteq> []"
    proof -
      obtain w ws where vs: "vs = w # ws" using ne by (cases vs) auto
      have "v \<noteq> w" using Cons.prems vs by auto
      moreover have "dirlist d M \<noteq> []" using M by (simp add: dirlist_def)
      moreover have "hd (vblock fw vs (flip d) M) = mk fw w (last (dirlist d M))"
        unfolding vs using hd_vblock [OF M, of fw w ws "flip d"] hd_dirlist_flip [OF M, of d]
        by (simp del: vblock.simps)
      ultimately show ?thesis
        by (simp add: last_map one_differs_def mk_def)
    qed
    show ?thesis using g1 g2 link by (auto simp: gray_append vblock_Nil_iff)
  qed
qed

lemma framework_vblock: "x \<in> set (vblock fw vs d M) \<Longrightarrow> framework x = fw"
  by (auto simp: set_vblock mk_def)

lemma framework_fblock: "x \<in> set (fblock fws dv V dm M) \<Longrightarrow> framework x \<in> set fws"
  by (auto simp: set_fblock product3_def mk_def)

lemma gray_fblock:
  assumes "distinct V" and "distinct M"
  shows "distinct fws \<Longrightarrow> gray (fblock fws dv V dm M)"
proof (induction fws arbitrary: dv dm)
  case Nil
  then show ?case by simp
next
  case (Cons fw fws)
  let ?xs = "vblock fw (dirlist dv V) dm M"
  let ?ys = "fblock fws (flip dv) V ((flip ^^ length V) dm) M"
  have g1: "gray ?xs" using assms by (simp add: gray_vblock)
  have g2: "gray ?ys" using Cons by simp
  have "framework (last ?xs) \<noteq> framework (hd ?ys)" if "?xs \<noteq> []" "?ys \<noteq> []"
  proof -
    have "framework (last ?xs) = fw" using that(1) framework_vblock last_in_set by blast
    moreover have "framework (hd ?ys) \<in> set fws" using that(2) framework_fblock hd_in_set by blast
    ultimately show ?thesis using Cons.prems by auto
  qed
  then show ?case using g1 g2 by (auto simp: gray_append)
qed

lemma distinct_start_first: "distinct xs \<Longrightarrow> distinct (start_first s xs)"
  by (simp add: start_first_def)

lemma set_start_first: "s \<in> set xs \<Longrightarrow> set (start_first s xs) = set xs"
  by (auto simp: start_first_def)

lemma generateFormats_gray_nonnull:
  assumes "distinct (frameworks c)" and "distinct (versions c)" and "distinct (modes c)"
    and "mode s = Some m"
  shows "\<exists>fs. generateFormats s c = Some fs \<and> gray fs"
  using assms by (simp add: generateFormats_Some gray_fblock distinct_start_first)

lemma hd_fblock: "hd (fblock (f # fs) 1 (v # vs) 1 (m # ms)) = mk f v m"
  by (simp add: dirlist_def)

lemma fblock_not_Nil: "fblock (f # fs) 1 (v # vs) 1 (m # ms) \<noteq> []"
  by (simp add: dirlist_def)


section \<open>generateFormats: first element, product, duplicates\<close>

lemmas gen_eval =
  generateFormats_def createConfig_def new_ReflectingArray_def iterate_def Let_def

text \<open>
  Claim C1, as the code has it. For a configuration whose three lists have no repeated
  value and contain the framework and the version of the start format, and its mode
  when it has one (a start format without mode needs a non-empty list of modes):
  \<open>generateFormats\<close> returns a non-empty sequence; its first element is the start
  format when the start format has a mode, and otherwise the start format with the
  first configured mode in place of the missing one (\<open>startM ?? modes[0]\<close>); the set
  of its formats is the full product of the three lists; and when the start format has
  a mode the sequence has no duplicates.
\<close>

theorem generateFormats_start_and_product:
  assumes "distinct (frameworks c)" and "distinct (versions c)" and "distinct (modes c)"
    and "framework s \<in> set (frameworks c)" and "version s \<in> set (versions c)"
    and "case mode s of Some m \<Rightarrow> m \<in> set (modes c) | None \<Rightarrow> modes c \<noteq> []"
  shows "\<exists>fs. generateFormats s c = Some fs \<and> fs \<noteq> []
           \<and> hd fs = (case mode s of Some m \<Rightarrow> s | None \<Rightarrow> s\<lparr>mode := Some (hd (modes c))\<rparr>)
           \<and> set fs = product3 (frameworks c) (versions c) (modes c)
           \<and> (mode s \<noteq> None \<longrightarrow> distinct fs)"
proof (cases "mode s")
  case None
  then obtain m ms where M: "modes c = m # ms" using assms(6) by (cases "modes c") auto
  let ?fs = "fblock (start_first (framework s) (frameworks c)) 1
               (start_first (version s) (versions c)) 1 (m # m # ms)"
  have "set (m # m # ms) = set (modes c)" using M by auto
  then have "product3 (start_first (framework s) (frameworks c))
               (start_first (version s) (versions c)) (m # m # ms)
             = product3 (frameworks c) (versions c) (modes c)"
    using assms(4,5) unfolding product3_def by (simp only: set_start_first)
  then have "set ?fs = product3 (frameworks c) (versions c) (modes c)"
    by (simp only: set_fblock)
  moreover have "hd ?fs = s\<lparr>mode := Some (hd (modes c))\<rparr>"
    using M by (simp add: start_first_def dirlist_def mk_def)
  moreover have "?fs \<noteq> []" by (simp add: start_first_def dirlist_def)
  ultimately show ?thesis using None by (simp add: generateFormats_None [OF None M])
next
  case (Some m)
  have "product3 (start_first (framework s) (frameworks c)) (start_first (version s) (versions c)) (start_first m (modes c))
     = product3 (frameworks c) (versions c) (modes c)"
    using assms(4,5,6) Some unfolding product3_def by (simp add: set_start_first)
  moreover have "distinct (fblock (start_first (framework s) (frameworks c)) 1
             (start_first (version s) (versions c)) 1 (start_first m (modes c)))"
    using assms(1,2,3) by (simp add: distinct_fblock distinct_start_first)
  moreover have "hd (fblock (start_first (framework s) (frameworks c)) 1
             (start_first (version s) (versions c)) 1 (start_first m (modes c))) = s"
    using Some by (simp add: start_first_def dirlist_def mk_def)
  moreover have "fblock (start_first (framework s) (frameworks c)) 1
             (start_first (version s) (versions c)) 1 (start_first m (modes c)) \<noteq> []"
     by (simp add: start_first_def dirlist_def)
  ultimately show ?thesis using Some by (simp add: generateFormats_Some [OF Some] set_fblock)
qed

theorem generateFormats_start_and_product_witness:
  "\<exists>fs. generateFormats unauthenticated_start createConfig = Some fs
      \<and> hd fs = unauthenticated_start
      \<and> set fs = product3 [''react'', ''vue'', ''html''] [3, 4] [''system'', ''light'', ''dark'']
      \<and> distinct fs"
  using generateFormats_start_and_product [of createConfig unauthenticated_start]
  by (auto simp: createConfig_def unauthenticated_start_def)

text \<open>
  The claim as stated fails for a start format without mode, which \<open>readCurrentFormat\<close>
  returns when no mode input is checked: from \<open>{react, 4, null}\<close> and the program's
  configuration the sequence starts with \<open>react-v4-system\<close>, not with the start
  format, and it is not free of duplicates.
\<close>

theorem generateFormats_null_mode_counterexample:
  "map_option hd (generateFormats \<lparr>framework = ''react'', version = 4, mode = None\<rparr> createConfig)
     = Some \<lparr>framework = ''react'', version = 4, mode = Some ''system''\<rparr>
   \<and> map_option distinct
         (generateFormats \<lparr>framework = ''react'', version = 4, mode = None\<rparr> createConfig)
     = Some False"
  by (simp add: gen_eval)

section \<open>generateFormats: neighbours\<close>

text \<open>
  With a start format that has a mode and lists without repeated values, neighbours
  with the same framework differ in exactly one of version and mode.
\<close>

lemma generateFormats_gray_default:
  "map_option gray (generateFormats unauthenticated_start createConfig) = Some True"
  by (simp add: gen_eval unauthenticated_start_def one_differs_def)

text \<open>
  Claim C2 at the start format \<open>{react, 4, null}\<close> with the program's configuration:
  the list of modes is built as \<open>[system, system, light, dark]\<close>, since the filter
  compares with the null start mode and not with the mode put first. The first two
  formats of the sequence are both \<open>react-v4-system\<close>: neighbours with the same
  framework that differ in no dimension.
\<close>

theorem generateFormats_null_mode_neighbours:
  "map_option (take 2)
       (generateFormats \<lparr>framework = ''react'', version = 4, mode = None\<rparr> createConfig)
     = Some [\<lparr>framework = ''react'', version = 4, mode = Some ''system''\<rparr>,
             \<lparr>framework = ''react'', version = 4, mode = Some ''system''\<rparr>]
   \<and> map_option gray
         (generateFormats \<lparr>framework = ''react'', version = 4, mode = None\<rparr> createConfig)
     = Some False"
  by (simp add: gen_eval one_differs_def)

section \<open>Formats of a page without mode inputs\<close>

lemma filter_seen_keep_new: "filter_seen seen fs = keep_new pair_key seen fs"
  by (induction fs arbitrary: seen) (auto simp: Let_def)

lemma pair_key_inj:
  assumes "CHR ''-'' \<notin> set (framework f)" and "CHR ''-'' \<notin> set (framework g)"
  shows "pair_key f = pair_key g \<longleftrightarrow> (framework f, version f) = (framework g, version g)"
proof
  assume "pair_key f = pair_key g"
  then have "framework f @ CHR ''-'' # number_toString (version f)
             = framework g @ CHR ''-'' # number_toString (version g)"
    by (simp add: pair_key_def)
  from split_at_char [OF assms this] number_toString_inj
  show "(framework f, version f) = (framework g, version g)" by auto
next
  assume "(framework f, version f) = (framework g, version g)"
  then show "pair_key f = pair_key g" by (simp add: pair_key_def)
qed

lemma dash_notin_number: "0 \<le> v \<Longrightarrow> CHR ''-'' \<notin> set (number_toString v)"
  by (simp add: number_toString_def dash_notin_digits)

lemma pair_key_inj_nonneg:
  assumes "0 \<le> version f" and "0 \<le> version g"
  shows "pair_key f = pair_key g \<longleftrightarrow> (framework f, version f) = (framework g, version g)"
proof
  assume "pair_key f = pair_key g"
  then have "rev (pair_key f) = rev (pair_key g)" by simp
  then have e: "rev (number_toString (version f)) @ CHR ''-'' # rev (framework f)
             = rev (number_toString (version g)) @ CHR ''-'' # rev (framework g)"
    by (simp add: pair_key_def)
  have "CHR ''-'' \<notin> set (rev (number_toString (version f)))"
    "CHR ''-'' \<notin> set (rev (number_toString (version g)))"
    using assms dash_notin_number by simp_all
  from split_at_char [OF this e] number_toString_inj
  show "(framework f, version f) = (framework g, version g)" by auto
next
  assume "(framework f, version f) = (framework g, version g)"
  then show "pair_key f = pair_key g" by (simp add: pair_key_def)
qed

lemma formatsToUse_keys:
  "formatsToUse False formats = first_occurrences pair_key formats"
  by (simp add: formatsToUse_def filter_seen_keep_new keep_new_eq)

lemma formatsToUse_eq:
  assumes "(\<forall>f\<in>set formats. CHR ''-'' \<notin> set (framework f)) \<or> (\<forall>f\<in>set formats. 0 \<le> version f)"
  shows "formatsToUse False formats = first_occurrences (\<lambda>f. (framework f, version f)) formats"
proof -
  have "pair_key f = pair_key g \<longleftrightarrow> (framework f, version f) = (framework g, version g)"
    if "f \<in> set formats" and "g \<in> set formats" for f g
    using assms that pair_key_inj [of f g] pair_key_inj_nonneg [of f g] by blast
  then have "first_occurrences pair_key formats
             = first_occurrences (\<lambda>f. (framework f, version f)) formats"
    by (intro first_occurrences_cong) blast
  then show ?thesis by (simp add: formatsToUse_keys)
qed


lemma length_generateFormats_default:
  "map_option length (generateFormats unauthenticated_start createConfig) = Some 18"
  by (simp add: gen_eval unauthenticated_start_def)

lemma formatsToUse_default:
  "map_option (\<lambda>fs. map toString (formatsToUse False fs))
       (generateFormats unauthenticated_start createConfig)
     = Some [''html-v3-light'', ''html-v4-dark'', ''react-v4-light'', ''react-v3-dark'',
             ''vue-v3-light'', ''vue-v4-dark'']"
  by (simp add: gen_eval unauthenticated_start_def formatsToUse_def pair_key_def
      toString_def print_simps)

text \<open>
  Claim C8. On a page without mode inputs (\<open>hasModeInputs\<close> false) the filter keeps
  the first format of every key \<open>`${f.framework}-${f.version}`\<close>, in order. When no
  framework name contains \<open>-\<close>, or no version is negative, the keys stand for the
  (framework, version) pairs: the filter keeps exactly the first format of every pair,
  one format per pair. With mode inputs the sequence is used as it is. For the sequence
  of an unauthenticated run, 18 formats from \<open>html-v3-light\<close> and the program's
  configuration, 6 formats remain.
\<close>

theorem formatsToUse_one_per_pair:
  "formatsToUse False formats = first_occurrences pair_key formats
   \<and> ((\<forall>f\<in>set formats. CHR ''-'' \<notin> set (framework f)) \<or> (\<forall>f\<in>set formats. 0 \<le> version f) \<longrightarrow>
        formatsToUse False formats = first_occurrences (\<lambda>f. (framework f, version f)) formats
        \<and> length (formatsToUse False formats)
            = card ((\<lambda>f. (framework f, version f)) ` set formats))
   \<and> formatsToUse True formats = formats
   \<and> (\<exists>fs. generateFormats unauthenticated_start createConfig = Some fs
         \<and> length fs = 18 \<and> length (formatsToUse False fs) = 6)"
proof -
  have "formatsToUse False formats = first_occurrences (\<lambda>f. (framework f, version f)) formats
        \<and> length (formatsToUse False formats) = card ((\<lambda>f. (framework f, version f)) ` set formats)"
    if "(\<forall>f\<in>set formats. CHR ''-'' \<notin> set (framework f)) \<or> (\<forall>f\<in>set formats. 0 \<le> version f)"
    using formatsToUse_eq [OF that] by (simp add: length_first_occurrences)
  moreover have "formatsToUse True formats = formats" by (simp add: formatsToUse_def)
  moreover have "\<exists>fs. generateFormats unauthenticated_start createConfig = Some fs
         \<and> length fs = 18 \<and> length (formatsToUse False fs) = 6"
    using length_generateFormats_default formatsToUse_default
    by (cases "generateFormats unauthenticated_start createConfig") auto
  ultimately show ?thesis using formatsToUse_keys [of formats] by blast
qed

theorem formatsToUse_one_per_pair_witness:
  "CHR ''-'' \<notin> set ''html'' \<and> CHR ''-'' \<notin> set ''react''
   \<and> formatsToUse False
        [\<lparr>framework = ''html'', version = 3, mode = Some ''light''\<rparr>,
         \<lparr>framework = ''html'', version = 3, mode = Some ''dark''\<rparr>,
         \<lparr>framework = ''react'', version = 3, mode = Some ''dark''\<rparr>,
         \<lparr>framework = ''html'', version = 3, mode = Some ''system''\<rparr>]
      = [\<lparr>framework = ''html'', version = 3, mode = Some ''light''\<rparr>,
         \<lparr>framework = ''react'', version = 3, mode = Some ''dark''\<rparr>]"
  using formatsToUse_one_per_pair
    [of "[\<lparr>framework = ''html'', version = 3, mode = Some ''light''\<rparr>,
         \<lparr>framework = ''html'', version = 3, mode = Some ''dark''\<rparr>,
         \<lparr>framework = ''react'', version = 3, mode = Some ''dark''\<rparr>,
         \<lparr>framework = ''html'', version = 3, mode = Some ''system''\<rparr>]",
      THEN conjunct2, THEN conjunct1]
  by simp

text \<open>
  Without the condition the claim fails: the formats \<open>a-\<close> in version 1 and \<open>a\<close>
  in version -1 are two (framework, version) pairs with the one key \<open>a--1\<close>, and the
  filter drops the second.
\<close>

theorem formatsToUse_key_counterexample:
  "(''a-'', 1 :: int) \<noteq> (''a'', - 1)
   \<and> formatsToUse False
        [\<lparr>framework = ''a-'', version = 1, mode = None\<rparr>,
         \<lparr>framework = ''a'', version = - 1, mode = None\<rparr>]
      = [\<lparr>framework = ''a-'', version = 1, mode = None\<rparr>]"
  by (simp add: formatsToUse_def pair_key_def print_simps)

section \<open>Retries\<close>

lemma processJobResult_retryCount:
  assumes "processJobResult this job = Inr (this', job')"
  shows "retryCount job \<le> retryCount job'
       \<and> (retryCount job \<le> maxRetries (config this) \<longrightarrow> retryCount job' \<le> maxRetries (config this))
       \<and> config this' = config this"
  using assms
  by (auto simp: processJobResult_def Let_def split: if_splits option.splits sum.splits)

lemma worker_report_retryCount:
  assumes "worker_report host job r = Inr (host', job')"
  shows "retryCount job \<le> retryCount job'
       \<and> (retryCount job \<le> maxRetries (config host) \<longrightarrow> retryCount job' \<le> maxRetries (config host))
       \<and> config host' = config host"
proof (cases r)
  case (Extracted d)
  then show ?thesis
    using assms processJobResult_retryCount [of host "job\<lparr>status := Completed, data := Some d\<rparr>" host' job']
    by (simp add: worker_report_def)
next
  case (Threw msg)
  then show ?thesis
    using assms processJobResult_retryCount [of host "job\<lparr>status := Failed, error := Some msg\<rparr>" host' job']
    by (simp add: worker_report_def)
qed

lemma reports_retryCount:
  "reports host job rs = Inr (host', job') \<Longrightarrow>
     retryCount job \<le> retryCount job'
     \<and> (retryCount job \<le> maxRetries (config host) \<longrightarrow> retryCount job' \<le> maxRetries (config host))
     \<and> config host' = config host"
proof (induction rs arbitrary: host job)
  case Nil
  then show ?case by simp
next
  case (Cons r rs)
  from Cons.prems obtain h1 j1 where
    step: "worker_report host job r = Inr (h1, j1)" and rest: "reports h1 j1 rs = Inr (host', job')"
    by (auto split: sum.splits)
  from worker_report_retryCount [OF step] Cons.IH [OF rest] show ?case by auto
qed


lemma retryCount_populateJobQueue: "job \<in> set (populateJobQueue urls) \<Longrightarrow> retryCount job = 0"
  by (auto simp: populateJobQueue_def)

text \<open>
  Claim C3. For a job reported with status \<open>failed\<close>: when its \<open>retryCount\<close> is below
  \<open>maxRetries\<close>, \<open>processJobResult\<close> increments the count, sets the status to
  \<open>pending\<close>, removes the error and pushes the job to the end of the queue; otherwise
  it leaves the job and the queue as they are, so the job is not enqueued again. Over
  any sequence of reports on a job the count never decreases and, once at most
  \<open>maxRetries\<close>, stays so; the jobs that \<open>_populateJobQueue\<close> creates start at 0.
\<close>

theorem processJobResult_failed:
  "(status job = Failed \<longrightarrow>
      (if retryCount job < maxRetries (config this)
       then processJobResult this job =
              Inr (this\<lparr>jobQueue := jobQueue this @
                     [job\<lparr>retryCount := retryCount job + 1, status := Pending, error := None\<rparr>]\<rparr>,
                   job\<lparr>retryCount := retryCount job + 1, status := Pending, error := None\<rparr>)
       else processJobResult this job = Inr (this, job)))
   \<and> (\<forall>rs this' job'. reports this job rs = Inr (this', job') \<longrightarrow>
         retryCount job \<le> retryCount job'
         \<and> (retryCount job \<le> maxRetries (config this) \<longrightarrow>
              retryCount job' \<le> maxRetries (config this)))
   \<and> (\<forall>job0 \<in> set (populateJobQueue urls). retryCount job0 = 0)"
  using reports_retryCount [of this job]
  by (auto simp: processJobResult_def Let_def retryCount_populateJobQueue)

theorem processJobResult_failed_witness:
  "status \<lparr>url = ''u'', status = Failed, retryCount = 0, data = None, error = Some ''timeout''\<rparr>
     = Failed
   \<and> processJobResult \<lparr>config = createConfig, jobQueue = [], componentData = []\<rparr>
        \<lparr>url = ''u'', status = Failed, retryCount = 0, data = None, error = Some ''timeout''\<rparr>
      = Inr (\<lparr>config = createConfig,
              jobQueue = [\<lparr>url = ''u'', status = Pending, retryCount = 1, data = None, error = None\<rparr>],
              componentData = []\<rparr>,
             \<lparr>url = ''u'', status = Pending, retryCount = 1, data = None, error = None\<rparr>)
   \<and> processJobResult \<lparr>config = createConfig, jobQueue = [], componentData = []\<rparr>
        \<lparr>url = ''u'', status = Failed, retryCount = 3, data = None, error = Some ''timeout''\<rparr>
      = Inr (\<lparr>config = createConfig, jobQueue = [], componentData = []\<rparr>,
             \<lparr>url = ''u'', status = Failed, retryCount = 3, data = None, error = Some ''timeout''\<rparr>)"
  using processJobResult_failed
      [of "\<lparr>url = ''u'', status = Failed, retryCount = 0, data = None, error = Some ''timeout''\<rparr>"
        "\<lparr>config = createConfig, jobQueue = [], componentData = []\<rparr>"]
    processJobResult_failed
      [of "\<lparr>url = ''u'', status = Failed, retryCount = 3, data = None, error = Some ''timeout''\<rparr>"
        "\<lparr>config = createConfig, jobQueue = [], componentData = []\<rparr>"]
  by (simp add: createConfig_def)

section \<open>Login without a terminal\<close>

lemma retryGoto_from_attempts:
  "retryGoto_from w u maxR attempt calls = Inr calls' \<Longrightarrow>
     attempts calls' = attempts calls \<and> prompts calls' = prompts calls"
proof (induction w u maxR attempt calls rule: retryGoto_from.induct)
  case (1 w u maxR attempt calls)
  from "1.prems" show ?case
    by (subst (asm) retryGoto_from.simps)
      (auto split: if_splits goto_outcome.splits dest!: "1.IH")
qed

lemma retryGoto_attempts:
  "retryGoto w u maxR calls = Inr calls' \<Longrightarrow> attempts calls' = attempts calls"
  using retryGoto_from_attempts by (simp add: retryGoto_def)

lemma login_loop_bad_non_interactive:
  assumes "\<not> isTTY w"
    and "retryGoto w (urls_login cfg) (maxRetries cfg) calls = Inr calls1"
    and "resilientLogin w (attempts calls1) credentials = Inr BadCredentials"
  shows "login_loop w cfg credentials calls =
           Some (Inl (DownloaderError
             ''Login failed: bad credentials. Cannot prompt in non-interactive mode.''),
             calls1\<lparr>attempts := attempts calls1 + 1\<rparr>)"
  using assms by (subst login_loop.simps) (simp add: Let_def)

lemma login_loop_goto_fails:
  assumes "retryGoto w (urls_login cfg) (maxRetries cfg) calls = Inl e"
  shows "login_loop w cfg credentials calls = Some (Inl e, calls)"
  using assms by (subst login_loop.simps) simp

text \<open>
  Claim C9. In a non-interactive run (\<open>process.stdin.isTTY\<close> false): an iteration of
  the loop whose navigation to the login page succeeds and whose attempt resolves to
  \<open>bad_credentials\<close> ends \<open>login\<close> with the \<open>DownloaderError\<close> for bad credentials,
  without prompting and without another attempt. So when every attempt resolves to
  \<open>bad_credentials\<close>, \<open>login\<close> returns, with an error, after at most one attempt:
  the bad-credentials error after exactly one attempt when the navigation succeeded,
  and the navigation's error before any attempt otherwise.
\<close>

theorem login_non_interactive_bad_credentials:
  assumes "\<not> isTTY w"
  shows
    "(retryGoto w (urls_login cfg) (maxRetries cfg) calls = Inr calls1
        \<and> resilientLogin w (attempts calls1) credentials = Inr BadCredentials
      \<longrightarrow> login_loop w cfg credentials calls =
            Some (Inl (DownloaderError
              ''Login failed: bad credentials. Cannot prompt in non-interactive mode.''),
              calls1\<lparr>attempts := attempts calls1 + 1\<rparr>))
     \<and> ((\<forall>k c. resilientLogin w k c = Inr BadCredentials) \<longrightarrow>
          (\<exists>e calls'. login w credentials cfg = Some (Inl e, calls') \<and> attempts calls' \<le> 1
             \<and> (\<forall>calls1. retryGoto w (urls_login cfg) (maxRetries cfg)
                            \<lparr>gotos = 0, attempts = 0, prompts = 0\<rparr> = Inr calls1 \<longrightarrow>
                   e = DownloaderError
                     ''Login failed: bad credentials. Cannot prompt in non-interactive mode.''
                   \<and> attempts calls' = 1)))"
proof (intro conjI impI)
  assume "retryGoto w (urls_login cfg) (maxRetries cfg) calls = Inr calls1
        \<and> resilientLogin w (attempts calls1) credentials = Inr BadCredentials"
  then show "login_loop w cfg credentials calls =
            Some (Inl (DownloaderError
              ''Login failed: bad credentials. Cannot prompt in non-interactive mode.''),
              calls1\<lparr>attempts := attempts calls1 + 1\<rparr>)"
    using login_loop_bad_non_interactive [OF assms] by blast
next
  assume bad: "\<forall>k c. resilientLogin w k c = Inr BadCredentials"
  let ?init = "\<lparr>gotos = 0, attempts = 0, prompts = 0\<rparr>"
  show "\<exists>e calls'. login w credentials cfg = Some (Inl e, calls') \<and> attempts calls' \<le> 1
             \<and> (\<forall>calls1. retryGoto w (urls_login cfg) (maxRetries cfg) ?init = Inr calls1 \<longrightarrow>
                   e = DownloaderError
                     ''Login failed: bad credentials. Cannot prompt in non-interactive mode.''
                   \<and> attempts calls' = 1)"
  proof (cases "retryGoto w (urls_login cfg) (maxRetries cfg) ?init")
    case (Inl e)
    then show ?thesis using login_loop_goto_fails [OF Inl] by (simp add: login_def)
  next
    case (Inr calls1)
    have a: "attempts calls1 = 0" using retryGoto_attempts [OF Inr] by simp
    show ?thesis
      using login_loop_bad_non_interactive [OF assms Inr] bad a Inr by (simp add: login_def)
  qed
qed

lemma retryGoto_silent:
  "retryGoto silent_world (urls_login createConfig) (maxRetries createConfig)
     \<lparr>gotos = 0, attempts = 0, prompts = 0\<rparr> = Inr \<lparr>gotos = 1, attempts = 0, prompts = 0\<rparr>"
  by (simp add: retryGoto_def retryGoto_from.simps silent_world_def createConfig_def)

theorem login_non_interactive_bad_credentials_witness:
  "\<not> isTTY silent_world
   \<and> login silent_world \<lparr>email = ''a@b.c'', password = ''wrong''\<rparr> createConfig
       = Some (Inl (DownloaderError
           ''Login failed: bad credentials. Cannot prompt in non-interactive mode.''),
           \<lparr>gotos = 1, attempts = 1, prompts = 0\<rparr>)"
  using login_non_interactive_bad_credentials [of silent_world createConfig
      "\<lparr>gotos = 0, attempts = 0, prompts = 0\<rparr>" "\<lparr>gotos = 1, attempts = 0, prompts = 0\<rparr>"
      "\<lparr>email = ''a@b.c'', password = ''wrong''\<rparr>"] retryGoto_silent
  by (simp add: login_def silent_world_def)

section \<open>Merging component data\<close>

lemma joined_None_right [simp]: "joined x None = x"
  by (cases x) auto

lemma joined_None_left [simp]: "joined None y = y"
  by (cases y) auto


lemma snippets_at_Nil [simp]: "snippets_at path [] = None"
  by (cases path) auto





























section \<open>Deduplication\<close>

lemma seen_loop_keep_new:
  "map snd (seen_loop seen snippets)
     = map snd seen @ keep_new snippet_key (fst ` set seen) snippets"
proof (induction snippets arbitrary: seen)
  case Nil
  then show ?case by simp
next
  case (Cons s rest)
  show ?case
  proof (cases "map_of seen (snippet_key s) = None")
    case True
    then have "snippet_key s \<notin> fst ` set seen" by (simp add: map_of_eq_None_iff)
    then show ?thesis using True Cons [of "seen @ [(snippet_key s, s)]"] by (simp add: Let_def)
  next
    case False
    then have "snippet_key s \<in> fst ` set seen" by (simp add: map_of_eq_None_iff)
    then show ?thesis using False Cons [of seen] by (auto simp: Let_def)
  qed
qed

lemma seen_loop_first_occurrences:
  "map snd (seen_loop [] snippets) = first_occurrences snippet_key snippets"
  by (simp add: seen_loop_keep_new keep_new_eq)

lemma boolean_toString_inj: "boolean_toString a = boolean_toString b \<Longrightarrow> a = b"
  by (auto simp: boolean_toString_def split: if_splits)

lemma bar_notin_boolean: "CHR ''|'' \<notin> set (boolean_toString b)"
  by (simp add: boolean_toString_def)

lemma snippet_key_inj: "snippet_key s = snippet_key t \<longleftrightarrow> variant s = variant t"
proof
  assume "snippet_key s = snippet_key t"
  then have "rev (snippet_key s) = rev (snippet_key t)" by simp
  then have e: "rev (boolean_toString (supportsDarkMode s)) @ CHR ''|'' #
            (rev (number_toString (snippet_version s)) @ CHR ''|'' # rev (name s))
        = rev (boolean_toString (supportsDarkMode t)) @ CHR ''|'' #
            (rev (number_toString (snippet_version t)) @ CHR ''|'' # rev (name t))"
    by (simp add: snippet_key_def)
  have b: "CHR ''|'' \<notin> set (rev (boolean_toString x))" for x
    using bar_notin_boolean by simp
  have n: "CHR ''|'' \<notin> set (rev (number_toString x))" for x
    using bar_notin_number by simp
  from split_at_char [OF b b e]
  have 1: "boolean_toString (supportsDarkMode s) = boolean_toString (supportsDarkMode t)"
    and r: "rev (number_toString (snippet_version s)) @ CHR ''|'' # rev (name s)
          = rev (number_toString (snippet_version t)) @ CHR ''|'' # rev (name t)"
    by simp_all
  from split_at_char [OF n n r]
  have 2: "number_toString (snippet_version s) = number_toString (snippet_version t)"
    and 3: "name s = name t"
    by simp_all
  show "variant s = variant t"
    using boolean_toString_inj [OF 1] number_toString_inj [OF 2] 3 by (simp add: variant_def)
next
  assume "variant s = variant t"
  then show "snippet_key s = snippet_key t" by (simp add: variant_def snippet_key_def)
qed

lemma seen_loop_variant:
  "map snd (seen_loop [] snippets) = first_occurrences variant snippets"
  unfolding seen_loop_first_occurrences
  by (rule first_occurrences_cong) (rule snippet_key_inj)

lemma deduplicate_idem:
  "deduplicate (deduplicate n) = deduplicate n"
  "deduplicate_values (deduplicate_values obj) = deduplicate_values obj"
  by (induction n and obj rule: deduplicate_deduplicate_values.induct)
    (simp_all add: seen_loop_variant first_occurrences_idem)

lemma map_of_deduplicate_values:
  "map_of (deduplicate_values obj) key = map_option deduplicate (map_of obj key)"
  by (induction obj) auto

lemma snippets_at_deduplicate_values:
  "snippets_at path (deduplicate_values obj)
     = map_option (first_occurrences variant) (snippets_at path obj)"
proof (induction path arbitrary: obj)
  case Nil
  then show ?case by simp
next
  case (Cons key path)
  show ?case
  proof (cases "map_of obj key")
    case None
    then show ?thesis by (simp add: map_of_deduplicate_values)
  next
    case (Some v)
    then show ?thesis using Cons
      by (cases v) (simp_all add: map_of_deduplicate_values seen_loop_variant)
  qed
qed

text \<open>
  Claim C6. In every leaf \<open>deduplicateEcommerceSnippets\<close> keeps, in order, the first
  snippet of every combination of \<open>name\<close> (the framework), \<open>version\<close> and
  \<open>supportsDarkMode\<close> and drops the later ones; and applying it twice gives the
  same tree as applying it once.
\<close>

theorem deduplicate_first_occurrences_idempotent:
  "deduplicateEcommerceSnippets (deduplicateEcommerceSnippets tree)
     = deduplicateEcommerceSnippets tree
   \<and> snippets_at path (deduplicateEcommerceSnippets tree)
       = map_option (first_occurrences variant) (snippets_at path tree)"
  by (simp add: deduplicateEcommerceSnippets_def structuredClone_def deduplicate_idem
      snippets_at_deduplicate_values)

theorem deduplicate_first_occurrences_idempotent_witness:
  "snippets_at leaf_path
       (deduplicateEcommerceSnippets (partial_of [snippet_X, snippet_Z, snippet_Y, snippet_Z]))
     = Some [snippet_X, snippet_Z]
   \<and> deduplicateEcommerceSnippets
         (deduplicateEcommerceSnippets (partial_of [snippet_X, snippet_Z, snippet_Y, snippet_Z]))
     = deduplicateEcommerceSnippets (partial_of [snippet_X, snippet_Z, snippet_Y, snippet_Z])"
  using deduplicate_first_occurrences_idempotent
    [of "partial_of [snippet_X, snippet_Z, snippet_Y, snippet_Z]" leaf_path]
  by (simp add: partial_of_def leaf_path_def variant_def snippet_X_def snippet_Y_def snippet_Z_def)

section \<open>The store: cloning and deduplicating\<close>

lemma atree_valid:
  "atree_of f h a = Some t \<Longrightarrow> (\<forall>x\<in>addrs t. x < length h)"
  "atrees_of f h kids = Some ts \<Longrightarrow> (\<forall>x\<in>addrs_all ts. x < length h)"
proof (induction f h a and f h kids arbitrary: t and ts rule: atree_of_atrees_of.induct)
  case (1 h a)
  then show ?case by simp
next
  case (2 f h a)
  then show ?case by (auto split: if_splits obj.splits)
next
  case (3 f h)
  then show ?case by simp
next
  case (4 f h key c rest)
  then show ?case by (auto split: option.splits)
qed

lemma atree_append:
  "atree_of f h a = Some t \<Longrightarrow> atree_of f (h @ ext) a = Some t"
  "atrees_of f h kids = Some ts \<Longrightarrow> atrees_of f (h @ ext) kids = Some ts"
proof (induction f h a and f h kids arbitrary: t and ts rule: atree_of_atrees_of.induct)
  case (1 h a)
  then show ?case by simp
next
  case (2 f h a)
  then show ?case by (auto simp: nth_append split: if_splits obj.splits)
next
  case (3 f h)
  then show ?case by simp
next
  case (4 f h key c rest)
  then show ?case by (auto split: option.splits)
qed

lemma clone_fresh:
  "atree_of f h a = Some t \<Longrightarrow>
     \<exists>a' ext t'. structuredClone_at f h a = Some (a', h @ ext)
        \<and> atree_of f (h @ ext) a' = Some t' \<and> erase t' = erase t
        \<and> (\<forall>x\<in>addrs t'. length h \<le> x)"
  "atrees_of f h kids = Some ts \<Longrightarrow>
     \<exists>kids' ext ts'. clone_values f h kids = Some (kids', h @ ext)
        \<and> atrees_of f (h @ ext) kids' = Some ts' \<and> erase_all ts' = erase_all ts
        \<and> (\<forall>x\<in>addrs_all ts'. length h \<le> x)"
proof (induction f h a and f h kids arbitrary: t and ts rule: structuredClone_at_clone_values.induct)
  case (1 h a)
  then show ?case by simp
next
  case (2 f h a)
  from "2.prems" have a: "a < length h" by (simp split: if_splits)
  show ?case
  proof (cases "h ! a")
    case (EntryObj nm snippets)
    with "2.prems" a have t: "t = AEntry a nm snippets" by simp
    have "structuredClone_at (Suc f) h a = Some (length h, h @ [EntryObj nm snippets])"
      using a EntryObj by simp
    moreover have "atree_of (Suc f) (h @ [EntryObj nm snippets]) (length h)
                   = Some (AEntry (length h) nm snippets)"
      by simp
    ultimately show ?thesis using t by fastforce
  next
    case (ContainerObj kids)
    with "2.prems" a obtain ts where ts: "atrees_of f h kids = Some ts"
      and t: "t = AContainer a ts" by auto
    from "2.IH" [OF a ContainerObj ts] obtain kids' ext ts' where
      c: "clone_values f h kids = Some (kids', h @ ext)"
      and r: "atrees_of f (h @ ext) kids' = Some ts'"
      and e: "erase_all ts' = erase_all ts"
      and fr: "\<forall>x\<in>addrs_all ts'. length h \<le> x"
      by blast
    let ?h' = "h @ (ext @ [ContainerObj kids'])"
    have 1: "structuredClone_at (Suc f) h a = Some (length (h @ ext), ?h')"
      using a ContainerObj c by simp
    have "atrees_of f ((h @ ext) @ [ContainerObj kids']) kids' = Some ts'"
      using atree_append(2) [OF r] .
    then have 2: "atree_of (Suc f) ?h' (length (h @ ext)) = Some (AContainer (length (h @ ext)) ts')"
      by (simp add: nth_append)
    have 3: "erase (AContainer (length (h @ ext)) ts') = erase t" using e t by simp
    have 4: "\<forall>x\<in>addrs (AContainer (length (h @ ext)) ts'). length h \<le> x" using fr by simp
    from 1 2 3 4 show ?thesis by blast
  qed
next
  case (3 f h)
  have "clone_values f h [] = Some ([], h @ [])" by simp
  moreover have "atrees_of f (h @ []) [] = Some []" by simp
  ultimately show ?case using "3.prems" by fastforce
next
  case (4 f h key c rest)
  from "4.prems" obtain t1 ts1 where t1: "atree_of f h c = Some t1"
    and ts1: "atrees_of f h rest = Some ts1" and ts: "ts = (key, t1) # ts1"
    by (auto split: option.splits)
  from "4.IH"(1) [OF t1] obtain c' e1 t1' where
    c1: "structuredClone_at f h c = Some (c', h @ e1)"
    and r1: "atree_of f (h @ e1) c' = Some t1'"
    and er1: "erase t1' = erase t1"
    and fr1: "\<forall>x\<in>addrs t1'. length h \<le> x"
    by blast
  have "atrees_of f (h @ e1) rest = Some ts1" using atree_append(2) [OF ts1] .
  from "4.IH"(2) [OF c1 refl this] obtain rest' e2 ts1' where
    c2: "clone_values f (h @ e1) rest = Some (rest', (h @ e1) @ e2)"
    and r2: "atrees_of f ((h @ e1) @ e2) rest' = Some ts1'"
    and er2: "erase_all ts1' = erase_all ts1"
    and fr2: "\<forall>x\<in>addrs_all ts1'. length (h @ e1) \<le> x"
    by blast
  have 1: "clone_values f h ((key, c) # rest) = Some ((key, c') # rest', h @ (e1 @ e2))"
    using c1 c2 by simp
  have "atree_of f ((h @ e1) @ e2) c' = Some t1'" using atree_append(1) [OF r1] .
  then have 2: "atrees_of f (h @ (e1 @ e2)) ((key, c') # rest') = Some ((key, t1') # ts1')"
    using r2 by simp
  have 3: "erase_all ((key, t1') # ts1') = erase_all ts" using er1 er2 ts by simp
  have 4: "\<forall>x\<in>addrs_all ((key, t1') # ts1'). length h \<le> x" using fr1 fr2 by auto
  from 1 2 3 4 show ?case by blast
qed

lemma seen_loop_idem:
  "map snd (seen_loop [] (map snd (seen_loop [] snippets))) = map snd (seen_loop [] snippets)"
  by (simp add: seen_loop_variant first_occurrences_idem)

lemma dedup_obj_idem [simp]: "dedup_obj (dedup_obj ob) = dedup_obj ob"
  by (cases ob) (simp_all add: seen_loop_idem)

lemma length_dedup_on [simp]: "length (dedup_on S h) = length h"
  by (simp add: dedup_on_def)

lemma nth_dedup_on:
  "i < length h \<Longrightarrow> dedup_on S h ! i = (if i \<in> S then dedup_obj (h ! i) else h ! i)"
  by (simp add: dedup_on_def)

lemma dedup_on_dedup_on: "dedup_on S (dedup_on T h) = dedup_on (S \<union> T) h"
  by (rule nth_equalityI) (auto simp: nth_dedup_on)

lemma dedup_on_entry:
  "a < length h \<Longrightarrow> h ! a = EntryObj nm snippets \<Longrightarrow>
     h[a := EntryObj nm (map snd (seen_loop [] snippets))] = dedup_on {a} h"
  by (rule nth_equalityI) (auto simp: nth_dedup_on nth_list_update)

lemma dedup_on_insert_container:
  "a < length h \<Longrightarrow> h ! a = ContainerObj kids \<Longrightarrow> dedup_on (insert a S) h = dedup_on S h"
  by (rule nth_equalityI) (auto simp: nth_dedup_on)

lemma addrs_adedup:
  "addrs (adedup_on S t) = addrs t"
  "addrs_all (adedup_all S ts) = addrs_all ts"
  by (induction S t and S ts rule: adedup_on_adedup_all.induct) simp_all

lemma erase_adedup:
  "addrs t \<subseteq> S \<Longrightarrow> erase (adedup_on S t) = deduplicate (erase t)"
  "addrs_all ts \<subseteq> S \<Longrightarrow> erase_all (adedup_all S ts) = deduplicate_values (erase_all ts)"
  by (induction S t and S ts rule: adedup_on_adedup_all.induct) simp_all

lemma atree_dedup_on:
  "atree_of f (dedup_on S h) a = map_option (adedup_on S) (atree_of f h a)"
  "atrees_of f (dedup_on S h) kids = map_option (adedup_all S) (atrees_of f h kids)"
proof (induction f h a and f h kids rule: atree_of_atrees_of.induct)
  case (1 h a)
  then show ?case by simp
next
  case (2 f h a)
  show ?case
  proof (cases "a < length h")
    case True
    then show ?thesis using 2
      by (cases "h ! a") (auto simp: nth_dedup_on option.map_comp comp_def)
  next
    case False
    then show ?thesis by simp
  qed
next
  case (3 f h)
  then show ?case by simp
next
  case (4 f h key c rest)
  then show ?case by (cases "atree_of f h c") (auto split: option.splits)
qed

lemma deduplicate_at_dedup_on:
  "atree_of f h a = Some t \<Longrightarrow> deduplicate_at f h a = Some (dedup_on (addrs t) h)"
  "cs = map snd kids \<Longrightarrow> atrees_of f h kids = Some ts \<Longrightarrow>
     deduplicate_each f h cs = Some (dedup_on (addrs_all ts) h)"
proof (induction f h a and f h cs arbitrary: t and kids ts
    rule: deduplicate_at_deduplicate_each.induct)
  case (1 h a)
  then show ?case by simp
next
  case (2 f h a)
  from "2.prems" have a: "a < length h" by (simp split: if_splits)
  show ?case
  proof (cases "h ! a")
    case (EntryObj nm snippets)
    with "2.prems" a have "t = AEntry a nm snippets" by simp
    then show ?thesis using a EntryObj by (simp add: dedup_on_entry)
  next
    case (ContainerObj kids)
    with "2.prems" a obtain ts where ts: "atrees_of f h kids = Some ts"
      and t: "t = AContainer a ts" by auto
    from "2.IH" [OF a ContainerObj refl ts]
    have "deduplicate_each f h (map snd kids) = Some (dedup_on (addrs_all ts) h)" .
    then show ?thesis using a ContainerObj t by (simp add: dedup_on_insert_container)
  qed
next
  case (3 f h)
  then have "ts = []" by (cases kids) auto
  moreover have "dedup_on {} h = h" by (rule nth_equalityI) (auto simp: nth_dedup_on)
  ultimately show ?case by simp
next
  case (4 f h c rest)
  from "4.prems"(1) obtain key kids' where kids: "kids = (key, c) # kids'"
    and rest: "rest = map snd kids'" by (cases kids) auto
  from "4.prems"(2) kids obtain t1 ts1 where t1: "atree_of f h c = Some t1"
    and ts1: "atrees_of f h kids' = Some ts1" and ts: "ts = (key, t1) # ts1"
    by (auto split: option.splits)
  from "4.IH"(1) [OF t1] have d1: "deduplicate_at f h c = Some (dedup_on (addrs t1) h)" .
  have "atrees_of f (dedup_on (addrs t1) h) kids' = Some (adedup_all (addrs t1) ts1)"
    using ts1 by (simp add: atree_dedup_on)
  from "4.IH"(2) [OF d1 rest this]
  have "deduplicate_each f (dedup_on (addrs t1) h) rest
        = Some (dedup_on (addrs_all ts1 \<union> addrs t1) h)"
    by (simp add: addrs_adedup dedup_on_dedup_on)
  then show ?case using d1 ts by (simp add: Un_commute)
qed

lemma adedup_disjoint:
  "addrs t \<inter> S = {} \<Longrightarrow> adedup_on S t = t"
  "addrs_all ts \<inter> S = {} \<Longrightarrow> adedup_all S ts = ts"
  by (induction S t and S ts rule: adedup_on_adedup_all.induct) auto

lemma deduplicateEcommerceSnippets_at_fresh:
  assumes "atree_of f h d = Some t"
  shows "\<exists>cloned h' t'. deduplicateEcommerceSnippets_at f h d = Some (cloned, h')
           \<and> take (length h) h' = h
           \<and> atree_of f h' d = Some t
           \<and> atree_of f h' cloned = Some t'
           \<and> (\<forall>x\<in>addrs t'. length h \<le> x \<and> x < length h')
           \<and> erase t' = deduplicate (erase t)"
proof -
  from clone_fresh(1) [OF assms] obtain cloned ext t1 where
    c: "structuredClone_at f h d = Some (cloned, h @ ext)"
    and r: "atree_of f (h @ ext) cloned = Some t1"
    and e: "erase t1 = erase t"
    and fr: "\<forall>x\<in>addrs t1. length h \<le> x"
    by blast
  let ?h' = "dedup_on (addrs t1) (h @ ext)"
  let ?t' = "adedup_on (addrs t1) t1"
  have d: "deduplicate_at f (h @ ext) cloned = Some ?h'"
    using deduplicate_at_dedup_on(1) [OF r] .
  have 1: "deduplicateEcommerceSnippets_at f h d = Some (cloned, ?h')"
    using c d by (simp add: deduplicateEcommerceSnippets_at_def)
  have 2: "take (length h) ?h' = h"
  proof (rule nth_equalityI)
    show "length (take (length h) ?h') = length h" by simp
  next
    fix i assume "i < length (take (length h) ?h')"
    then have i: "i < length h" by simp
    then have "i \<notin> addrs t1" using fr by auto
    then show "take (length h) ?h' ! i = h ! i" using i by (simp add: nth_dedup_on nth_append)
  qed
  have "addrs t \<inter> addrs t1 = {}" using atree_valid(1) [OF assms] fr by fastforce
  then have "adedup_on (addrs t1) t = t" by (rule adedup_disjoint)
  then have 3: "atree_of f ?h' d = Some t"
    using atree_append(1) [OF assms, of ext] by (simp add: atree_dedup_on)
  have 4: "atree_of f ?h' cloned = Some ?t'" using r by (simp add: atree_dedup_on)
  have 5: "\<forall>x\<in>addrs ?t'. length h \<le> x \<and> x < length ?h'"
    using fr atree_valid(1) [OF r] by (simp add: addrs_adedup)
  have 6: "erase ?t' = deduplicate (erase t)" using e by (simp add: erase_adedup)
  from 1 2 3 4 5 6 show ?thesis by blast
qed

section \<open>The store: merging in place\<close>

lemma grows_refl: "grows h h"
  by (simp add: grows_def)

lemma grows_trans: "grows h1 h2 \<Longrightarrow> grows h2 h3 \<Longrightarrow> grows h1 h3"
  unfolding grows_def by (meson le_trans less_le_trans subset_trans)

lemma grows_add_key:
  assumes "target < length h" and "h ! target = ContainerObj tkids"
  shows "grows h ((h @ [ob])[target := ContainerObj (AList.update key n tkids)])"
  unfolding grows_def
proof (intro conjI allI impI)
  show "length h \<le> length ((h @ [ob])[target := ContainerObj (AList.update key n tkids)])"
    by simp
next
  fix x assume x: "x < length h"
  show "is_container ((h @ [ob])[target := ContainerObj (AList.update key n tkids)]) x
        = is_container h x"
    using x assms by (cases "x = target") (simp_all add: is_container_def nth_append)
next
  fix x assume x: "x < length h"
  show "keys_of h x \<subseteq> keys_of ((h @ [ob])[target := ContainerObj (AList.update key n tkids)]) x"
    using x assms by (cases "x = target") (auto simp: keys_of_def nth_append dom_update)
qed

lemma keys_add_key:
  assumes "target < length h"
  shows "key \<in> keys_of ((h @ [ob])[target := ContainerObj (AList.update key n tkids)]) target"
  using assms by (simp_all add: keys_of_def dom_update)

lemma grows_entry_update:
  assumes "te < length h" and "h ! te = EntryObj tn ts"
  shows "grows h (h[te := EntryObj tn ts'])"
  unfolding grows_def
proof (intro conjI allI impI)
  show "length h \<le> length (h[te := EntryObj tn ts'])" by simp
next
  fix x assume "x < length h"
  then show "is_container (h[te := EntryObj tn ts']) x = is_container h x"
    using assms by (cases "x = te") (simp_all add: is_container_def)
next
  fix x assume "x < length h"
  then show "keys_of h x \<subseteq> keys_of (h[te := EntryObj tn ts']) x"
    using assms by (cases "x = te") (simp_all add: keys_of_def)
qed

lemma grows_keeps_key:
  "grows h h' \<Longrightarrow> x < length h \<Longrightarrow> key \<in> keys_of h x \<Longrightarrow> key \<in> keys_of h' x"
  by (auto simp: grows_def)

lemma grows_length: "grows h h' \<Longrightarrow> x < length h \<Longrightarrow> x < length h'"
  by (simp add: grows_def)

lemma key_present:
  "h ! target = ContainerObj tkids \<Longrightarrow> map_of tkids key = Some c \<Longrightarrow> key \<in> keys_of h target"
  by (auto simp: keys_of_def dest: map_of_SomeD intro: rev_image_eqI)

lemma set_update_cases:
  "(k', c') \<in> set (AList.update k v al) \<Longrightarrow> (k', c') = (k, v) \<or> (k', c') \<in> set al"
  by (induction al) (auto split: if_splits)

lemma well_formed_iff:
  "well_formed proto h L \<longleftrightarrow>
     proto < length h \<and> h ! proto = ContainerObj []
     \<and> (\<forall>x<length h.
          (\<forall>nm ss. h ! x = EntryObj nm ss \<longrightarrow> L x = 0)
          \<and> (\<forall>kids. h ! x = ContainerObj kids \<longrightarrow>
                0 < L x
                \<and> (\<forall>key c. (key, c) \<in> set kids \<longrightarrow>
                      c < length h \<and> c \<noteq> proto \<and> L x = Suc (L c)
                      \<and> key \<notin> set prototype_names)))"
  unfolding well_formed_def list_all_iff
  by (simp add: Ball_def split: obj.splits prod.splits) blast

lemma well_formed_entry:
  "well_formed proto h L \<Longrightarrow> x < length h \<Longrightarrow> h ! x = EntryObj nm ss \<Longrightarrow> L x = 0"
  by (simp add: well_formed_iff)

lemma well_formed_container:
  "well_formed proto h L \<Longrightarrow> x < length h \<Longrightarrow> h ! x = ContainerObj kids \<Longrightarrow> 0 < L x"
  by (simp add: well_formed_iff)

lemma well_formed_value:
  "well_formed proto h L \<Longrightarrow> x < length h \<Longrightarrow> h ! x = ContainerObj kids \<Longrightarrow>
     (key, c) \<in> set kids \<Longrightarrow>
     c < length h \<and> c \<noteq> proto \<and> L x = Suc (L c) \<and> key \<notin> set prototype_names"
  unfolding well_formed_iff by blast

lemma well_formed_proto:
  "well_formed proto h L \<Longrightarrow> proto < length h \<and> h ! proto = ContainerObj []"
  by (simp add: well_formed_iff)

lemma well_formed_entry_update:
  assumes "well_formed proto h L" and "te < length h" and "h ! te = EntryObj tn ts"
  shows "well_formed proto (h[te := EntryObj tn ts']) L"
proof -
  have p: "te \<noteq> proto" using assms by (auto simp: well_formed_iff)
  show ?thesis
    unfolding well_formed_iff
  proof (intro conjI allI impI)
    show "proto < length (h[te := EntryObj tn ts'])" using assms(1) by (simp add: well_formed_iff)
    show "h[te := EntryObj tn ts'] ! proto = ContainerObj []"
      using assms(1) p by (simp add: well_formed_iff)
  next
    fix x nm ss
    assume "x < length (h[te := EntryObj tn ts'])" "h[te := EntryObj tn ts'] ! x = EntryObj nm ss"
    then show "L x = 0"
      using assms well_formed_entry [OF assms(1), of x] by (cases "x = te") auto
  next
    fix x kids
    assume x: "x < length (h[te := EntryObj tn ts'])"
      "h[te := EntryObj tn ts'] ! x = ContainerObj kids"
    then have k: "x < length h" "h ! x = ContainerObj kids" by (cases "x = te"; simp)+
    show "0 < L x" using well_formed_container [OF assms(1) k] .
    fix key c
    assume "(key, c) \<in> set kids"
    from well_formed_value [OF assms(1) k this]
    show "c < length (h[te := EntryObj tn ts'])" "c \<noteq> proto" "L x = Suc (L c)"
      "key \<notin> set prototype_names" by simp_all
  qed
qed

lemma well_formed_add_key:
  assumes wf: "well_formed proto h L" and t: "target < length h" and tp: "target \<noteq> proto"
    and tk: "h ! target = ContainerObj tkids" and k: "key \<notin> set prototype_names"
    and lt: "L target = Suc m"
    and ob: "ob = EntryObj nm ss \<and> m = 0 \<or> ob = ContainerObj [] \<and> 0 < m"
  shows "well_formed proto
           ((h @ [ob])[target := ContainerObj (AList.update key (length h) tkids)])
           (L(length h := m))"
    (is "well_formed proto ?h1 ?L1")
proof -
  from wf have p: "proto < length h" "h ! proto = ContainerObj []" by (simp_all add: well_formed_iff)
  have old: "?h1 ! x = h ! x" if "x < length h" "x \<noteq> target" for x
    using that by (simp add: nth_append)
  have new: "?h1 ! length h = ob" using t by (simp add: nth_append)
  have tgt: "?h1 ! target = ContainerObj (AList.update key (length h) tkids)"
    using t by simp
  have L1: "?L1 x = L x" if "x < length h" for x using that by simp
  show ?thesis
    unfolding well_formed_iff
  proof (intro conjI allI impI)
    show "proto < length ?h1" using p by simp
    show "?h1 ! proto = ContainerObj []" using p tp old by simp
  next
    fix x nm' ss'
    assume x: "x < length ?h1" and e: "?h1 ! x = EntryObj nm' ss'"
    show "?L1 x = 0"
    proof (cases "x = length h")
      case True
      then show ?thesis using e new ob by auto
    next
      case False
      then have xl: "x < length h" using x by simp
      have "x \<noteq> target" using e tgt by auto
      then have "h ! x = EntryObj nm' ss'" using e old [OF xl] by simp
      from well_formed_entry [OF wf xl this] xl show ?thesis by simp
    qed
  next
    fix x kids
    assume x: "x < length ?h1" and c: "?h1 ! x = ContainerObj kids"
    have pos: "0 < ?L1 x"
    proof (cases "x = length h")
      case True
      then show ?thesis using c new ob by auto
    next
      case False
      then have xl: "x < length h" using x by simp
      show ?thesis
      proof (cases "x = target")
        case True
        then show ?thesis using lt xl by simp
      next
        case False
        then have "h ! x = ContainerObj kids" using c old [OF xl] by simp
        from well_formed_container [OF wf xl this] xl show ?thesis by simp
      qed
    qed
    show "0 < ?L1 x" using pos .
    fix key' c'
    assume kc: "(key', c') \<in> set kids"
    have "c' < length ?h1 \<and> c' \<noteq> proto \<and> ?L1 x = Suc (?L1 c') \<and> key' \<notin> set prototype_names"
    proof (cases "x = length h")
      case True
      then show ?thesis using c new ob kc by auto
    next
      case False
      then have xl: "x < length h" using x by simp
      show ?thesis
      proof (cases "x = target")
        case True
        then have "kids = AList.update key (length h) tkids" using c tgt by simp
        then have "(key', c') = (key, length h) \<or> (key', c') \<in> set tkids"
          using kc set_update_cases by fastforce
        then show ?thesis
        proof
          assume "(key', c') = (key, length h)"
          then show ?thesis using p k lt True xl by auto
        next
          assume "(key', c') \<in> set tkids"
          from well_formed_value [OF wf t tk this] True xl show ?thesis by auto
        qed
      next
        case False
        then have "h ! x = ContainerObj kids" using c old [OF xl] by simp
        from well_formed_value [OF wf xl this kc] xl show ?thesis by auto
      qed
    qed
    then show "c' < length ?h1" "c' \<noteq> proto" "?L1 x = Suc (?L1 c')"
      "key' \<notin> set prototype_names" by simp_all
  qed
qed

lemma get_at_plain:
  assumes "well_formed proto h L" and "target \<noteq> proto" and "h ! target = ContainerObj tkids"
    and "key \<notin> set prototype_names"
  shows "get_at proto h target key
         = (case map_of tkids key of Some c \<Rightarrow> Object c | None \<Rightarrow> Nullish)"
  using assms well_formed_proto [OF assms(1)]
  by (auto simp: get_at_def get_def properties_def prototype_names_def split: option.splits)

lemma set_at_plain:
  assumes "target \<noteq> proto" and "target < length h" and "h ! target = ContainerObj tkids"
  shows "set_at proto (h @ [ob]) target key v
         = Inr ((h @ [ob])[target := ContainerObj (AList.update key v tkids)])"
  using assms by (simp add: set_at_def properties_def nth_append)

lemma merge_at_returns:
  "well_formed proto h L \<Longrightarrow> target < length h \<Longrightarrow> target \<noteq> proto \<Longrightarrow> source < length h \<Longrightarrow>
   L target = L source \<Longrightarrow> 0 < L source \<Longrightarrow> L source \<le> f \<Longrightarrow>
     \<exists>h' L'. mergeComponentData_at f proto h target source = Some (Inr h')
        \<and> well_formed proto h' L' \<and> grows h h' \<and> (\<forall>x<length h. L' x = L x)
        \<and> keys_of h source \<subseteq> keys_of h' target"
  "well_formed proto h L \<Longrightarrow> target < length h \<Longrightarrow> target \<noteq> proto \<Longrightarrow>
   L target = Suc m \<Longrightarrow> m \<le> f \<Longrightarrow>
   \<forall>(key, v)\<in>set entries. v < length h \<and> L v = m \<and> key \<notin> set prototype_names \<Longrightarrow>
     \<exists>h' L'. merge_entries_at f proto h target entries = Some (Inr h')
        \<and> well_formed proto h' L' \<and> grows h h' \<and> (\<forall>x<length h. L' x = L x)
        \<and> fst ` set entries \<subseteq> keys_of h' target"
proof (induction f proto h target source and f proto h target entries arbitrary: L and L m
    rule: mergeComponentData_at_merge_entries_at.induct)
  case (1 proto h target source)
  then show ?case by simp
next
  case (2 f proto h target source)
  note wf = "2.prems"(1)
  obtain entries where c: "h ! source = ContainerObj entries"
    using well_formed_entry [OF wf "2.prems"(4)] "2.prems"(6) by (cases "h ! source") auto
  obtain m where m: "L source = Suc m" using "2.prems"(6) by (cases "L source") auto
  have e: "\<forall>(key, v)\<in>set entries. v < length h \<and> L v = m \<and> key \<notin> set prototype_names"
    using well_formed_value [OF wf "2.prems"(4) c] m by auto
  from "2.IH" [OF "2.prems"(4) c wf "2.prems"(2,3) _ _ e] "2.prems"(5,7) m
  obtain h' L' where
    r: "merge_entries_at f proto h target entries = Some (Inr h')"
      "well_formed proto h' L'" "grows h h'" "\<forall>x<length h. L' x = L x"
      "fst ` set entries \<subseteq> keys_of h' target"
    by auto
  have "keys_of h source = fst ` set entries" using c by (simp add: keys_of_def)
  then show ?case using r "2.prems"(4) c by auto
next
  case (3 f proto h target)
  then show ?case using grows_refl by auto
next
  case (4 f proto h target key v rest)
  note wf = "4.prems"(1) and t = "4.prems"(2) and tp = "4.prems"(3) and lt = "4.prems"(4)
    and mf = "4.prems"(5)
  from "4.prems"(6) have v: "v < length h" and lv: "L v = m"
    and k: "key \<notin> set prototype_names"
    and er: "\<forall>(key, v)\<in>set rest. v < length h \<and> L v = m \<and> key \<notin> set prototype_names"
    by auto
  from well_formed_proto [OF wf] have p: "proto < length h" by simp
  have tv: "target < length h \<and> v < length h \<and> proto < length h" using t v p by simp
  obtain tkids where tk: "h ! target = ContainerObj tkids"
    using well_formed_entry [OF wf t] lt by (cases "h ! target") auto
  note g = get_at_plain [OF wf tp tk k]
  have step: ?case
    if m1: "merge_entries_at f proto h target ((key, v) # rest)
            = merge_entries_at f proto h1 target rest"
      and wf1: "well_formed proto h1 L1" and g1: "grows h h1"
      and L1: "\<forall>x<length h. L1 x = L x"
      and k1: "key \<in> keys_of h1 target"
      and ih: "\<And>L m. well_formed proto h1 L \<Longrightarrow> target < length h1 \<Longrightarrow> target \<noteq> proto \<Longrightarrow>
                 L target = Suc m \<Longrightarrow> m \<le> f \<Longrightarrow>
                 \<forall>(key, v)\<in>set rest. v < length h1 \<and> L v = m \<and> key \<notin> set prototype_names \<Longrightarrow>
                 \<exists>h' L'. merge_entries_at f proto h1 target rest = Some (Inr h')
                    \<and> well_formed proto h' L' \<and> grows h1 h' \<and> (\<forall>x<length h1. L' x = L x)
                    \<and> fst ` set rest \<subseteq> keys_of h' target"
    for h1 L1
  proof -
    have t1: "target < length h1" using grows_length [OF g1 t] .
    have len: "length h \<le> length h1" using g1 by (simp add: grows_def)
    have e1: "\<forall>(key, v)\<in>set rest. v < length h1 \<and> L1 v = m \<and> key \<notin> set prototype_names"
      using er L1 len by fastforce
    have lt1: "L1 target = Suc m" using L1 t lt by simp
    from ih [OF wf1 t1 tp lt1 mf e1] obtain h' L' where
      r: "merge_entries_at f proto h1 target rest = Some (Inr h')"
        "well_formed proto h' L'" "grows h1 h'" "\<forall>x<length h1. L' x = L1 x"
        "fst ` set rest \<subseteq> keys_of h' target"
      by blast
    have "key \<in> keys_of h' target" using grows_keeps_key [OF r(3) t1 k1] .
    moreover have "\<forall>x<length h. L' x = L x" using r(4) L1 len by auto
    ultimately show ?thesis using m1 r grows_trans [OF g1 r(3)] by auto
  qed
  show ?case
  proof (cases "h ! v")
    case (EntryObj nm snippets)
    have m0: "m = 0" using well_formed_entry [OF wf v EntryObj] lv by simp
    show ?thesis
    proof (cases "map_of tkids key")
      case None
      then have gn: "get_at proto h target key = Nullish" using g by simp
      let ?h1 = "(h @ [EntryObj nm snippets])[target := ContainerObj (AList.update key (length h) tkids)]"
      have s: "set_at proto (h @ [EntryObj nm snippets]) target key (length h) = Inr ?h1"
        using set_at_plain [OF tp t tk] .
      have m1: "merge_entries_at f proto h target ((key, v) # rest)
                = merge_entries_at f proto ?h1 target rest"
        using tv tk EntryObj gn s by simp
      have wf1: "well_formed proto ?h1 (L(length h := m))"
        using well_formed_add_key [OF wf t tp tk k lt, of "EntryObj nm snippets" nm snippets] m0
        by simp
      show ?thesis
        by (rule step [OF m1 wf1 grows_add_key [OF t tk] _ keys_add_key [OF t]
              "4.IH"(2) [OF tv tk EntryObj gn s]]) simp_all
    next
      case (Some te)
      then have go: "get_at proto h target key = Object te" using g by simp
      have kc: "(key, te) \<in> set tkids" using Some by (rule map_of_SomeD)
      from well_formed_value [OF wf t tk kc] lt have te: "te < length h" and lte: "L te = m"
        by simp_all
      obtain tname tsnippets where e: "h ! te = EntryObj tname tsnippets"
        using well_formed_container [OF wf te] lte m0 by (cases "h ! te") auto
      let ?h1 = "h[te := EntryObj tname (tsnippets @ snippets)]"
      have m1: "merge_entries_at f proto h target ((key, v) # rest)
                = merge_entries_at f proto ?h1 target rest"
        using tv tk EntryObj go te e by simp
      have g1: "grows h ?h1" using grows_entry_update [OF te e] .
      have k1: "key \<in> keys_of ?h1 target"
        using grows_keeps_key [OF g1 t key_present [OF tk Some]] .
      show ?thesis
        by (rule step [OF m1 well_formed_entry_update [OF wf te e] g1 _ k1
              "4.IH"(1) [OF tv tk EntryObj go te e]]) simp_all
    qed
  next
    case (ContainerObj obj)
    have mpos: "0 < m" using well_formed_container [OF wf v ContainerObj] lv by simp
    show ?thesis
    proof (cases "map_of tkids key")
      case None
      then have gn: "get_at proto h target key = Nullish" using g by simp
      let ?h1 = "(h @ [ContainerObj []])[target := ContainerObj (AList.update key (length h) tkids)]"
      let ?L1 = "L(length h := m)"
      have s: "set_at proto (h @ [ContainerObj []]) target key (length h) = Inr ?h1"
        using set_at_plain [OF tp t tk] .
      have wf1: "well_formed proto ?h1 ?L1"
        using well_formed_add_key [OF wf t tp tk k lt, of "ContainerObj []"] mpos by simp
      have g0: "grows h ?h1" using grows_add_key [OF t tk] .
      have "\<exists>h' L'. mergeComponentData_at f proto ?h1 (length h) v = Some (Inr h')
              \<and> well_formed proto h' L' \<and> grows ?h1 h' \<and> (\<forall>x<length ?h1. L' x = ?L1 x)
              \<and> keys_of ?h1 v \<subseteq> keys_of h' (length h)"
        using "4.IH"(10) [OF tv tk ContainerObj gn s wf1] p v lv mpos mf by simp
      then obtain h2 L2 where
        r: "mergeComponentData_at f proto ?h1 (length h) v = Some (Inr h2)"
          "well_formed proto h2 L2" "grows ?h1 h2" "\<forall>x<length ?h1. L2 x = ?L1 x"
        by blast
      have m1: "merge_entries_at f proto h target ((key, v) # rest)
                = merge_entries_at f proto h2 target rest"
        using tv tk ContainerObj gn s r(1) by simp
      have t1: "target < length ?h1" using t by simp
      have k1: "key \<in> keys_of h2 target"
        using grows_keeps_key [OF r(3) t1 keys_add_key [OF t]] .
      have L2: "\<forall>x<length h. L2 x = L x" using r(4) by auto
      show ?thesis
        by (rule step [OF m1 r(2) grows_trans [OF g0 r(3)] L2 k1
              "4.IH"(11) [OF tv tk ContainerObj gn s r(1) refl]])
    next
      case (Some tc)
      then have go: "get_at proto h target key = Object tc" using g by simp
      have kc: "(key, tc) \<in> set tkids" using Some by (rule map_of_SomeD)
      from well_formed_value [OF wf t tk kc] lt have tc: "tc < length h" and ltc: "L tc = m"
        and tcp: "tc \<noteq> proto" by simp_all
      obtain tobj where c: "h ! tc = ContainerObj tobj"
        using well_formed_entry [OF wf tc] ltc mpos by (cases "h ! tc") auto
      have "\<exists>h' L'. mergeComponentData_at f proto h tc v = Some (Inr h')
              \<and> well_formed proto h' L' \<and> grows h h' \<and> (\<forall>x<length h. L' x = L x)
              \<and> keys_of h v \<subseteq> keys_of h' tc"
        using "4.IH"(4) [OF tv tk ContainerObj go tc c wf tc tcp v] ltc lv mpos mf by simp
      then obtain h2 L2 where
        r: "mergeComponentData_at f proto h tc v = Some (Inr h2)"
          "well_formed proto h2 L2" "grows h h2" "\<forall>x<length h. L2 x = L x"
        by blast
      have m1: "merge_entries_at f proto h target ((key, v) # rest)
                = merge_entries_at f proto h2 target rest"
        using tv tk ContainerObj go tc c r(1) by simp
      have k1: "key \<in> keys_of h2 target"
        using grows_keeps_key [OF r(3) t key_present [OF tk Some]] .
      show ?thesis
        by (rule step [OF m1 r(2) r(3) r(4) k1
              "4.IH"(5) [OF tv tk ContainerObj go tc c r(1) refl]])
    qed
  qed
qed

section \<open>No mutation of the argument\<close>

lemma root_in_addrs:
  "atree_of f h a = Some t \<Longrightarrow> a \<in> addrs t"
  by (cases f) (auto split: if_splits obj.splits)

text \<open>
  Claim C10. Let the store hold a tree at the reference \<open>d\<close>. Then
  \<open>deduplicateEcommerceSnippets\<close> returns a reference \<open>cloned\<close> and a store in
  which every object that existed before the call is unchanged, so that the argument
  still holds the same tree in the same objects; the returned reference and every
  object of the returned tree are new objects, none of them an object of the store
  before the call; and the returned tree is the deduplicated argument.
  \<open>mergeComponentData\<close> returns no reference. On a well-formed store, with target
  and source container objects of one level and fuel for that level, it returns, and
  when the source object has a key that the target object lacks, the target object
  itself has changed and has that key.
\<close>

theorem deduplicateEcommerceSnippets_never_mutates:
  "(atree_of f h d = Some t \<longrightarrow>
      (\<exists>cloned h' t'. deduplicateEcommerceSnippets_at f h d = Some (cloned, h')
         \<and> take (length h) h' = h
         \<and> atree_of f h' d = Some t
         \<and> atree_of f h' cloned = Some t'
         \<and> length h \<le> cloned
         \<and> (\<forall>x\<in>addrs t'. length h \<le> x \<and> x < length h')
         \<and> erase t' = deduplicate (erase t)))
   \<and> (well_formed proto h L \<and> target < length h \<and> target \<noteq> proto \<and> source < length h
        \<and> L target = L source \<and> L source \<le> f
        \<and> h ! target = ContainerObj tkids \<and> h ! source = ContainerObj entries
        \<and> key \<in> fst ` set entries \<and> key \<notin> fst ` set tkids
      \<longrightarrow> (\<exists>h2. mergeComponentData_at f proto h target source = Some (Inr h2)
             \<and> target < length h2 \<and> h2 ! target \<noteq> h ! target \<and> key \<in> keys_of h2 target))"
proof (rule conjI; rule impI)
  assume a: "atree_of f h d = Some t"
  from deduplicateEcommerceSnippets_at_fresh [OF a] obtain cloned h' t' where
    r: "deduplicateEcommerceSnippets_at f h d = Some (cloned, h')"
      "take (length h) h' = h" "atree_of f h' d = Some t" "atree_of f h' cloned = Some t'"
      "\<forall>x\<in>addrs t'. length h \<le> x \<and> x < length h'" "erase t' = deduplicate (erase t)"
    by blast
  have "length h \<le> cloned" using root_in_addrs [OF r(4)] r(5) by blast
  then show "\<exists>cloned h' t'. deduplicateEcommerceSnippets_at f h d = Some (cloned, h')
         \<and> take (length h) h' = h
         \<and> atree_of f h' d = Some t
         \<and> atree_of f h' cloned = Some t'
         \<and> length h \<le> cloned
         \<and> (\<forall>x\<in>addrs t'. length h \<le> x \<and> x < length h')
         \<and> erase t' = deduplicate (erase t)"
    using r by blast
next
  assume a: "well_formed proto h L \<and> target < length h \<and> target \<noteq> proto \<and> source < length h
        \<and> L target = L source \<and> L source \<le> f
        \<and> h ! target = ContainerObj tkids \<and> h ! source = ContainerObj entries
        \<and> key \<in> fst ` set entries \<and> key \<notin> fst ` set tkids"
  then have wf: "well_formed proto h L" and t: "target < length h" and s: "source < length h"
    and tk: "h ! target = ContainerObj tkids" and sk: "h ! source = ContainerObj entries"
    by simp_all
  have pos: "0 < L source" using well_formed_container [OF wf s sk] .
  from merge_at_returns(1) [OF wf t _ s _ pos, of f] a obtain h2 where
    m: "mergeComponentData_at f proto h target source = Some (Inr h2)"
    and g: "grows h h2" and k: "keys_of h source \<subseteq> keys_of h2 target"
    by auto
  have in': "key \<in> keys_of h2 target" using k a sk by (auto simp: keys_of_def)
  have out: "key \<notin> keys_of h target" using a tk by (simp add: keys_of_def)
  have "h2 ! target \<noteq> h ! target"
  proof
    assume "h2 ! target = h ! target"
    then have "keys_of h2 target = keys_of h target" by (simp add: keys_of_def)
    then show False using in' out by simp
  qed
  then show "\<exists>h2. mergeComponentData_at f proto h target source = Some (Inr h2)
             \<and> target < length h2 \<and> h2 ! target \<noteq> h ! target \<and> key \<in> keys_of h2 target"
    using m in' grows_length [OF g t] by blast
qed

lemma example_tree:
  "tree_of 5 example_store 5 = Some (Container (partial_of [snippet_X, snippet_Y]))"
  by (simp add: tree_of_def example_store_def partial_of_def eval_nat_numeral)

lemma example_well_formed:
  "well_formed 6 (example_store @ [ContainerObj []]) example_levels"
  by (simp add: well_formed_def example_store_def example_levels_def prototype_names_def
      prototype_functions_def upt_conv_Cons eval_nat_numeral)

theorem deduplicateEcommerceSnippets_never_mutates_witness:
  "tree_of 5 example_store 5 = Some (Container (partial_of [snippet_X, snippet_Y]))
   \<and> (\<exists>cloned h'. deduplicateEcommerceSnippets_at 5 example_store 5 = Some (cloned, h')
         \<and> take (length example_store) h' = example_store
         \<and> length example_store \<le> cloned
         \<and> tree_of 5 h' 5 = Some (Container (partial_of [snippet_X, snippet_Y]))
         \<and> tree_of 5 h' cloned
             = Some (deduplicate (Container (partial_of [snippet_X, snippet_Y]))))
   \<and> well_formed 6 (example_store @ [ContainerObj []]) example_levels
   \<and> (\<exists>h2. mergeComponentData_at 5 6 (example_store @ [ContainerObj []]) 0 5 = Some (Inr h2)
         \<and> h2 ! 0 \<noteq> ContainerObj [] \<and> ''Ecommerce'' \<in> keys_of h2 0)"
proof -
  obtain t where t: "atree_of 5 example_store 5 = Some t"
    and e: "erase t = Container (partial_of [snippet_X, snippet_Y])"
    using example_tree by (auto simp: tree_of_def)
  from deduplicateEcommerceSnippets_never_mutates [of 5 example_store 5 t, THEN conjunct1] t
  obtain cloned h' t' where
    r: "deduplicateEcommerceSnippets_at 5 example_store 5 = Some (cloned, h')"
      "take (length example_store) h' = example_store"
      "atree_of 5 h' 5 = Some t" "atree_of 5 h' cloned = Some t'"
      "length example_store \<le> cloned" "erase t' = deduplicate (erase t)"
    by blast
  have 1: "tree_of 5 h' 5 = Some (Container (partial_of [snippet_X, snippet_Y]))"
    using r(3) e by (simp add: tree_of_def)
  have 2: "tree_of 5 h' cloned = Some (deduplicate (Container (partial_of [snippet_X, snippet_Y])))"
    using r(4,6) e by (simp add: tree_of_def)
  let ?h = "example_store @ [ContainerObj []]"
  have "well_formed 6 ?h example_levels \<and> 0 < length ?h \<and> (0::nat) \<noteq> 6 \<and> 5 < length ?h
        \<and> example_levels 0 = example_levels 5 \<and> example_levels 5 \<le> 5
        \<and> ?h ! 0 = ContainerObj [] \<and> ?h ! 5 = ContainerObj [(''Ecommerce'', 4)]
        \<and> ''Ecommerce'' \<in> fst ` set [(''Ecommerce'', 4 :: nat)]
        \<and> ''Ecommerce'' \<notin> fst ` set ([] :: (string \<times> nat) list)"
    using example_well_formed by (simp add: example_store_def example_levels_def)
  with deduplicateEcommerceSnippets_never_mutates
    [of 5 ?h _ _ 6 example_levels 0 5 "[]" "[(''Ecommerce'', 4)]" "''Ecommerce''",
      THEN conjunct2]
  obtain h2 where
    3: "mergeComponentData_at 5 6 ?h 0 5 = Some (Inr h2)" "h2 ! 0 \<noteq> ?h ! 0"
      "''Ecommerce'' \<in> keys_of h2 0"
    by blast
  have "?h ! 0 = ContainerObj []" by (simp add: example_store_def)
  with 3 have 4: "\<exists>h2. mergeComponentData_at 5 6 ?h 0 5 = Some (Inr h2)
         \<and> h2 ! 0 \<noteq> ContainerObj [] \<and> ''Ecommerce'' \<in> keys_of h2 0"
    by auto
  from r(1,2,5) 1 2 4 example_tree example_well_formed show ?thesis by blast
qed

end
